theory Spec2Isabelle
  imports Main "HOL-Library.Word"
begin

unbundle bit_operations_syntax

section \<open>Bytes, machine integers and C strings\<close>

text \<open>
  The pipeline of \<^verbatim>\<open>src/pkgi_download.cpp\<close> works on \<^verbatim>\<open>uint8_t\<close> buffers and on
  \<^verbatim>\<open>uint32_t\<close> / \<^verbatim>\<open>uint64_t\<close> counters; they are words here, so every sum, difference and
  product wraps as in the source. \<^verbatim>\<open>size_t\<close> is 32 bits wide (the target is the 32-bit ARM of
  the console), which matters only for \<^verbatim>\<open>sizeof(item) * index\<close>.
\<close>

type_synonym u8 = "8 word"
type_synonym u32 = "32 word"
type_synonym u64 = "64 word"

text \<open>
  Modelled from the spec: \<^verbatim>\<open>get32be\<close> and \<^verbatim>\<open>get64be\<close> of \<^verbatim>\<open>pkgi_utils.h\<close> (not among the
  sources), "big-endian integer decode helpers". The argument is the memory from the pointer on.
\<close>

definition be_word :: "u8 list \<Rightarrow> 'a::len word" where
  "be_word bs = foldl (\<lambda>acc b. push_bit 8 acc OR ucast b) 0 bs"

definition get32be :: "u8 list \<Rightarrow> u32" where
  "get32be p = be_word (take 4 p)"

definition get64be :: "u8 list \<Rightarrow> u64" where
  "get64be p = be_word (take 8 p)"

text \<open>\<^verbatim>\<open>min64\<close> of \<^verbatim>\<open>pkgi_utils.h\<close>: the smaller of two unsigned 64-bit values.\<close>

definition min64 :: "u64 \<Rightarrow> u64 \<Rightarrow> u64" where
  "min64 a b = (if a < b then a else b)"

text \<open>\<^verbatim>\<open>pkgi_memequ(a, b, n)\<close>: the first \<open>n\<close> bytes at both pointers agree.\<close>

definition pkgi_memequ :: "u8 list \<Rightarrow> u8 list \<Rightarrow> nat \<Rightarrow> bool" where
  "pkgi_memequ a b n = (take n a = take n b)"

definition char_of_byte :: "u8 \<Rightarrow> char" where
  "char_of_byte b = char_of (unat b)"

text \<open>The C string held by a \<^verbatim>\<open>char\<close> buffer: everything before the first NUL.\<close>

definition c_string :: "u8 list \<Rightarrow> string" where
  "c_string bs = map char_of_byte (takeWhile (\<lambda>b. b \<noteq> 0) bs)"

text \<open>
  \<^verbatim>\<open>pkgi_snprintf(dst, sizeof(dst), ...)\<close> into a \<^verbatim>\<open>char[256]\<close>: the formatted text, cut to
  255 characters.
\<close>

definition snprintf256 :: "string \<Rightarrow> string" where
  "snprintf256 txt = take 255 txt"

section \<open>Errors\<close>

text \<open>
  One constructor for each \<^verbatim>\<open>throw DownloadError(...)\<close> of the source, in the order of the
  file. \<open>UndefinedBehaviour\<close> is no exception of the source: the model stops there when the
  source reads or writes outside a buffer (or dereferences a null pointer), where C++ says nothing
  about what happens next.
\<close>

datatype error =
    HttpLengthUnknown
  | HttpDownloadError int
  | HttpConnectionClosed
  | CannotWrite string
  | CannotCreateFolder string
  | CannotCreateFile string
  | BadPkgHeader
  | RifMismatch
  | HeadTooLarge
  | InvalidKeyType int
  | PkgTooSmallOrCorrupt
  | UnsupportedPackageType u32
  | IndexSizeMismatch u32 u64
  | FileOrdering u64 u64
  | IntegrityMismatch
  | CannotSave string
  | UndefinedBehaviour

section \<open>The collaborators: file system, HTTP, SHA-256, AES\<close>

subsection \<open>File system\<close>

text \<open>
  Modelled from the spec: the I/O facade of \<^verbatim>\<open>pkgi.h\<close> (not among the sources), "create
  directories, create/write/close/rename/delete files, file-exists probe ... so tests can
  substitute an in-memory fake". The fake keeps regular files by path and the set of directories;
  \<open>refuses\<close> says which calls fail, so that every failure branch of the pipeline can be taken.
\<close>

datatype io_call = Mkdirs | Create | Write | Save | Rename | Load | Delete

record filesys =
  files :: "string \<rightharpoonup> u8 list"
  dirs :: "string set"
  refuses :: "io_call \<Rightarrow> string \<Rightarrow> bool"

definition ancestors :: "string \<Rightarrow> string list" where
  "ancestors path = [take n path. n \<leftarrow> [1..<length path], path ! n = CHR ''/''] @ [path]"

definition pkgi_mkdirs :: "string \<Rightarrow> filesys \<Rightarrow> bool \<times> filesys" where
  "pkgi_mkdirs path f =
     (if refuses f Mkdirs path then (False, f)
      else (True, f\<lparr>dirs := dirs f \<union> set (ancestors path)\<rparr>))"

definition pkgi_create :: "string \<Rightarrow> filesys \<Rightarrow> string option \<times> filesys" where
  "pkgi_create path f =
     (if refuses f Create path then (None, f)
      else (Some path, f\<lparr>files := (files f)(path \<mapsto> [])\<rparr>))"

definition pkgi_write :: "string option \<Rightarrow> u8 list \<Rightarrow> filesys \<Rightarrow> bool \<times> filesys" where
  "pkgi_write handle buf f =
     (case handle of
        None \<Rightarrow> (False, f)
      | Some path \<Rightarrow>
          if refuses f Write path then (False, f)
          else (True, f\<lparr>files := (files f)(path \<mapsto>
                  (case files f path of None \<Rightarrow> buf | Some old \<Rightarrow> old @ buf))\<rparr>))"

definition pkgi_rm :: "string \<Rightarrow> filesys \<Rightarrow> filesys" where
  "pkgi_rm path f = f\<lparr>files := (files f)(path := None)\<rparr>"

definition pkgi_save :: "string \<Rightarrow> u8 list \<Rightarrow> filesys \<Rightarrow> bool \<times> filesys" where
  "pkgi_save path content f =
     (if refuses f Save path then (False, f)
      else (True, f\<lparr>files := (files f)(path \<mapsto> content)\<rparr>))"

subsection \<open>HTTP\<close>

text \<open>
  Modelled from the spec: the \<^verbatim>\<open>Http\<close> interface of \<^verbatim>\<open>pkgi_download.hpp\<close> (not among the
  sources), "range-resumable byte stream: start(url, offset), length() -> int64, read(buf) ->
  bytes_read". The fake serves \<open>resource\<close>; \<open>requests\<close> logs every \<^verbatim>\<open>start\<close>, \<open>served\<close>
  logs every byte a \<^verbatim>\<open>read\<close> returned, and \<open>schedule\<close> says how the next reads behave
  (short reads, transport errors). A read returns an \<^verbatim>\<open>int\<close>, so never more than
  \<open>2^31 - 1\<close> bytes.
\<close>

datatype http_event = Deliver nat | Fail nat

record http_state =
  started :: bool
  resource :: "u8 list"
  length_known :: bool
  requests :: "(string \<times> u64) list"
  pending :: "u8 list"
  served :: "u8 list"
  schedule :: "http_event list"

definition http_start :: "string \<Rightarrow> u64 \<Rightarrow> http_state \<Rightarrow> http_state" where
  "http_start url offset h =
     h\<lparr>started := True, requests := requests h @ [(url, offset)],
       pending := drop (unat offset) (resource h)\<rparr>"

definition http_get_length :: "http_state \<Rightarrow> int" where
  "http_get_length h = (if length_known h then int (length (pending h)) else - 1)"

definition http_deliver :: "nat \<Rightarrow> http_state \<Rightarrow> int \<times> u8 list \<times> http_state" where
  "http_deliver n h =
     (int n, take n (pending h),
      h\<lparr>pending := drop n (pending h), served := served h @ take n (pending h)\<rparr>)"

definition http_read :: "u32 \<Rightarrow> http_state \<Rightarrow> int \<times> u8 list \<times> http_state" where
  "http_read sz h =
     (let most = min (min (unat sz) (length (pending h))) 2147483647 in
      case schedule h of
        [] \<Rightarrow> http_deliver most h
      | Fail code # rest \<Rightarrow> (- int (Suc code), [], h\<lparr>schedule := rest\<rparr>)
      | Deliver k # rest \<Rightarrow> http_deliver (min k most) (h\<lparr>schedule := rest\<rparr>))"

subsection \<open>SHA-256\<close>

text \<open>
  The hash library is not among the sources. Its context is modelled by what an incremental hash
  stands for: the bytes fed so far, in order. \<^verbatim>\<open>sha256_finish\<close> applies the hash function
  \<open>H\<close>, a parameter, to them.
\<close>

record sha256_ctx =
  fed :: "u8 list"
  finished :: bool

definition sha256_init :: sha256_ctx where
  "sha256_init = \<lparr>fed = [], finished = False\<rparr>"

definition sha256_update :: "sha256_ctx \<Rightarrow> u8 list \<Rightarrow> sha256_ctx" where
  "sha256_update c bs = c\<lparr>fed := fed c @ bs\<rparr>"

definition sha256_finish :: "(u8 list \<Rightarrow> u8 list) \<Rightarrow> sha256_ctx \<Rightarrow> u8 list \<times> sha256_ctx" where
  "sha256_finish H c = (H (fed c), c\<lparr>finished := True\<rparr>)"

subsection \<open>AES-128\<close>

text \<open>
  The block cipher \<^verbatim>\<open>aes128_encrypt\<close> is a parameter \<open>E\<close> (key, block, result).
  Modelled from the spec: \<^verbatim>\<open>aes128_ctr\<close> (not among the sources), "XOR buf with the keystream
  E_k(iv + floor(stream_offset/16)) starting at byte stream_offset mod 16 within that block".
\<close>

type_synonym cipher = "u8 list \<Rightarrow> u8 list \<Rightarrow> u8 list"

definition counter_block :: "u8 list \<Rightarrow> nat \<Rightarrow> u8 list" where
  "counter_block iv0 c =
     (let w = (be_word iv0 :: 128 word) + of_nat c
      in map (\<lambda>i. ucast (drop_bit (8 * (15 - i)) w)) [0..<16])"

definition keystream_byte :: "cipher \<Rightarrow> u8 list \<Rightarrow> u8 list \<Rightarrow> nat \<Rightarrow> u8" where
  "keystream_byte E key iv0 p =
     (let block = E key (counter_block iv0 (p div 16))
      in if p mod 16 < length block then block ! (p mod 16) else 0)"

definition aes128_ctr :: "cipher \<Rightarrow> u8 list \<Rightarrow> u8 list \<Rightarrow> nat \<Rightarrow> u8 list \<Rightarrow> u8 list" where
  "aes128_ctr E key iv0 offset buf =
     map (\<lambda>(p, b). b XOR keystream_byte E key iv0 p) (zip [offset..<offset + length buf] buf)"

section \<open>The session state\<close>

text \<open>
  The members of \<^verbatim>\<open>class Download\<close> that the pipeline reads and writes, with the collaborators
  it owns. \<open>head\<close> is the fixed-size buffer \<^verbatim>\<open>uint8_t head[...]\<close>: a list whose length is
  \<^verbatim>\<open>sizeof(head)\<close> and never changes. \<open>down_size\<close> is \<^verbatim>\<open>sizeof(down)\<close>; both sizes are
  declared in \<^verbatim>\<open>pkgi_download.hpp\<close>, which is not among the sources, so they are left open.
  \<open>item_file\<close> is the open handle (the path it was created at) or \<^verbatim>\<open>NULL\<close>. \<open>item_name\<close>
  holds the C string in the \<^verbatim>\<open>char item_name[256]\<close> buffer. \<open>cancel_polls\<close> are the answers
  the next calls of \<^verbatim>\<open>is_canceled()\<close> give (none left: not cancelled). The progress
  timestamps \<^verbatim>\<open>info_start\<close>, \<^verbatim>\<open>info_update\<close> and the logging are left out: nothing in
  the pipeline reads them back.
\<close>

record download =
  root :: string
  download_content :: string
  download_url :: string
  download_offset :: u64
  download_size :: u64
  iv :: "u8 list"
  aes :: "u8 list"
  sha :: sha256_ctx
  item_file :: "string option"
  item_name :: string
  item_path :: string
  item_index :: int
  head :: "u8 list"
  head_size :: u32
  down_size :: nat
  meta_offset :: u32
  meta_count :: u32
  index_count :: u32
  total_size :: u64
  enc_offset :: u64
  enc_size :: u64
  index_size :: u32
  content_type :: u32
  encrypted_base :: u64
  encrypted_offset :: u64
  decrypted_size :: u64
  http :: http_state
  fs :: filesys
  cancel_polls :: "bool list"

text \<open>
  A call ends with a thrown \<open>error\<close> or a returned value, and in both cases with the state it
  left behind: files written before a \<^verbatim>\<open>throw\<close> stay written.
\<close>

type_synonym 'a outcome = "(error + 'a) \<times> download"

definition is_canceled :: "download \<Rightarrow> bool \<times> download" where
  "is_canceled s =
     (case cancel_polls s of
        [] \<Rightarrow> (False, s)
      | c # cs \<Rightarrow> (c, s\<lparr>cancel_polls := cs\<rparr>))"

section \<open>\<^verbatim>\<open>Download::download_data\<close>\<close>

text \<open>Lines 49 to 67: the stream is opened by the first call that finds it closed.\<close>

definition open_stream :: "download \<Rightarrow> unit outcome" where
  "open_stream s =
     (if \<not> started (http s) then
        (let s1 = s\<lparr>http := http_start (download_url s) (download_offset s) (http s)\<rparr>;
             http_length = http_get_length (http s1)
         in if http_length < 0 then (Inl HttpLengthUnknown, s1)
            else (Inr (), s1\<lparr>download_size := of_int http_length + download_offset s1\<rparr>))
      else (Inr (), s))"

text \<open>Lines 84 to 88: decryption in place, at the stream offset of the current item.\<close>

definition decrypt_step :: "cipher \<Rightarrow> int \<Rightarrow> int \<Rightarrow> u8 list \<Rightarrow> download \<Rightarrow> u8 list \<times> download" where
  "decrypt_step E encrypted rd bytes s =
     (if encrypted \<noteq> 0 then
        (aes128_ctr E (aes s) (iv s) (unat (encrypted_base s + encrypted_offset s)) bytes,
         s\<lparr>encrypted_offset := encrypted_offset s + of_int rd\<rparr>)
      else (bytes, s))"

text \<open>Lines 90 to 110: what is written, and the count that strips the padding.\<close>

definition save_step :: "int \<Rightarrow> int \<Rightarrow> u8 list \<Rightarrow> download \<Rightarrow> unit outcome" where
  "save_step encrypted rd buf s =
     (let (write, s1) =
            (if encrypted \<noteq> 0 then
               (let w = (ucast (min64 (decrypted_size s) (of_int rd)) :: u32)
                in (w, s\<lparr>decrypted_size := decrypted_size s - ucast w\<rparr>))
             else (of_int rd, s))
      in case pkgi_write (item_file s1) (take (unat write) buf) (fs s1) of
           (False, f) \<Rightarrow> (Inl (CannotWrite (item_path s1)), s1\<lparr>fs := f\<rparr>)
         | (True, f) \<Rightarrow> (Inr (), s1\<lparr>fs := f\<rparr>))"

text \<open>
  Lines 70 to 112: what is done with the result \<open>rd\<close> of the read and the bytes it stored.
\<close>

definition process_read ::
  "cipher \<Rightarrow> int \<Rightarrow> int \<Rightarrow> int \<Rightarrow> u8 list \<Rightarrow> download \<Rightarrow> (int \<times> u8 list) outcome" where
  "process_read E encrypted save rd bytes s =
     (if rd < 0 then (Inl (HttpDownloadError rd), s)
      else if rd = 0 then (Inl HttpConnectionClosed, s)
      else
        let s1 = s\<lparr>download_offset := download_offset s + of_int rd\<rparr>;
            s2 = s1\<lparr>sha := sha256_update (sha s1) bytes\<rparr>;
            (buf, s3) = decrypt_step E encrypted rd bytes s2
        in if save \<noteq> 0 then
             (case save_step encrypted rd buf s3 of
                (Inl e, s4) \<Rightarrow> (Inl e, s4)
              | (Inr _, s4) \<Rightarrow> (Inr (rd, buf), s4))
           else (Inr (rd, buf), s3))"

text \<open>
  \<^verbatim>\<open>download_data(buffer, size, encrypted, save)\<close>. The buffer argument is modelled by
  \<open>room\<close>, the number of bytes that can be stored from the pointer on, and by the second
  component of the result, the first \<open>read\<close> bytes of the buffer on return. A read of more
  than \<open>room\<close> bytes overruns the buffer: the model stops with the state before the read.
\<close>

definition download_data ::
  "cipher \<Rightarrow> nat \<Rightarrow> u32 \<Rightarrow> int \<Rightarrow> int \<Rightarrow> download \<Rightarrow> (int \<times> u8 list) outcome" where
  "download_data E room sz encrypted save s0 =
     (case is_canceled s0 of
        (True, s) \<Rightarrow> (Inr (0, []), s)
      | (False, s) \<Rightarrow>
          (case open_stream s of
             (Inl e, s1) \<Rightarrow> (Inl e, s1)
           | (Inr _, s1) \<Rightarrow>
               (case http_read sz (http s1) of
                  (rd, bytes, h) \<Rightarrow>
                    if room < nat rd then (Inl UndefinedBehaviour, s1)
                    else process_read E encrypted save rd bytes (s1\<lparr>http := h\<rparr>))))"

section \<open>\<^verbatim>\<open>Download::create_file\<close>\<close>

text \<open>
  The folder is \<open>item_path\<close> up to its last slash. Without a slash \<^verbatim>\<open>pkgi_strrchr\<close> returns
  a null pointer, which the source writes through.
\<close>

definition parent_folder :: "string \<Rightarrow> string option" where
  "parent_folder path =
     (if CHR ''/'' \<in> set path
      then Some (rev (tl (dropWhile (\<lambda>c. c \<noteq> CHR ''/'') (rev path))))
      else None)"

definition create_file :: "download \<Rightarrow> int outcome" where
  "create_file s =
     (case parent_folder (snprintf256 (item_path s)) of
        None \<Rightarrow> (Inl UndefinedBehaviour, s)
      | Some folder \<Rightarrow>
          (case pkgi_mkdirs folder (fs s) of
             (False, f) \<Rightarrow> (Inl (CannotCreateFolder folder), s\<lparr>fs := f\<rparr>)
           | (True, f) \<Rightarrow>
               (case pkgi_create (item_path s) f of
                  (None, f') \<Rightarrow>
                    (Inl (CannotCreateFile (item_name s)), s\<lparr>fs := f', item_file := None\<rparr>)
                | (Some h, f') \<Rightarrow> (Inr 1, s\<lparr>fs := f', item_file := Some h\<rparr>))))"

section \<open>Every loop of reads ends\<close>

text \<open>
  A read that returns bytes takes them from what the server has left to deliver, so the number
  of bytes left (before the stream is opened: one more than the whole resource) goes down with
  every turn of a loop.
\<close>

definition remaining :: "download \<Rightarrow> nat" where
  "remaining s =
     (if started (http s) then length (pending (http s))
      else Suc (length (resource (http s))))"

lemma http_read_shape:
  "http_read sz h = (rd, bytes, h') \<Longrightarrow> 0 < rd \<Longrightarrow>
     started h' = started h \<and> resource h' = resource h \<and> requests h' = requests h
     \<and> length bytes = nat rd \<and> nat rd \<le> unat sz
     \<and> pending h = bytes @ pending h' \<and> served h' = served h @ bytes"
  by (auto simp: http_read_def http_deliver_def Let_def min_def split: list.splits http_event.splits if_splits)

lemma open_stream_remaining:
  "open_stream s = (Inr u, s1) \<Longrightarrow> started (http s1) \<and> length (pending (http s1)) < remaining s + (if started (http s) then 1 else 0)"
  by (auto simp: open_stream_def remaining_def http_start_def Let_def split: if_splits)

text \<open>A call of \<open>download_data\<close>, stage by stage.\<close>

lemma download_data_stages:
  assumes "download_data E room sz enc save s = (r, s')"
  shows "\<exists>c sa. is_canceled s = (c, sa) \<and>
           (s' = sa \<or>
            (\<exists>u sb. open_stream sa = (u, sb) \<and>
               (s' = sb \<or>
                (\<exists>rd bytes h. http_read sz (http sb) = (rd, bytes, h)
                   \<and> process_read E enc save rd bytes (sb\<lparr>http := h\<rparr>) = (r, s')))))"
proof (cases "is_canceled s")
  case (Pair c sa)
  show ?thesis
  proof (cases c)
    case True
    with Pair assms have "s' = sa" by (simp add: download_data_def)
    with Pair show ?thesis by blast
  next
    case False
    show ?thesis
    proof (cases "open_stream sa")
      case o: (Pair u sb)
      show ?thesis
      proof (cases u)
        case (Inl e)
        with Pair False o assms have "s' = sb" by (simp add: download_data_def)
        with Pair o show ?thesis by blast
      next
        case (Inr x)
        obtain rd bytes h where h: "http_read sz (http sb) = (rd, bytes, h)"
          by (cases "http_read sz (http sb)")
        from Pair False o Inr h assms
        have "s' = sb \<or> process_read E enc save rd bytes (sb\<lparr>http := h\<rparr>) = (r, s')"
          by (simp add: download_data_def split: if_splits)
        with Pair o h show ?thesis by blast
      qed
    qed
  qed
qed

lemma download_data_rel:
  assumes refl: "\<And>s. R s s" and trans: "\<And>a b c. R a b \<Longrightarrow> R b c \<Longrightarrow> R a c"
    and c: "\<And>s c s1. is_canceled s = (c, s1) \<Longrightarrow> R s s1"
    and o: "\<And>s u s1. open_stream s = (u, s1) \<Longrightarrow> R s s1"
    and p: "\<And>s rd bytes h r s1. http_read sz (http s) = (rd, bytes, h) \<Longrightarrow>
              process_read E enc save rd bytes (s\<lparr>http := h\<rparr>) = (r, s1) \<Longrightarrow> R s s1"
    and run: "download_data E room sz enc save s = (r, s')"
  shows "R s s'"
proof -
  from download_data_stages [OF run] obtain c0 sa where
    a: "is_canceled s = (c0, sa)" and
    b: "s' = sa \<or> (\<exists>u sb. open_stream sa = (u, sb) \<and>
               (s' = sb \<or>
                (\<exists>rd bytes h. http_read sz (http sb) = (rd, bytes, h)
                   \<and> process_read E enc save rd bytes (sb\<lparr>http := h\<rparr>) = (r, s'))))"
    by blast
  have 1: "R s sa" using a by (rule c)
  from b have "R sa s'"
  proof
    assume "s' = sa"
    then show ?thesis by (simp add: refl)
  next
    assume "\<exists>u sb. open_stream sa = (u, sb) \<and>
               (s' = sb \<or>
                (\<exists>rd bytes h. http_read sz (http sb) = (rd, bytes, h)
                   \<and> process_read E enc save rd bytes (sb\<lparr>http := h\<rparr>) = (r, s')))"
    then obtain u sb where
      d: "open_stream sa = (u, sb)" and
      e: "s' = sb \<or> (\<exists>rd bytes h. http_read sz (http sb) = (rd, bytes, h)
                   \<and> process_read E enc save rd bytes (sb\<lparr>http := h\<rparr>) = (r, s'))"
      by blast
    have 2: "R sa sb" using d by (rule o)
    from e have "R sb s'"
    proof
      assume "s' = sb"
      then show ?thesis by (simp add: refl)
    next
      assume "\<exists>rd bytes h. http_read sz (http sb) = (rd, bytes, h)
                   \<and> process_read E enc save rd bytes (sb\<lparr>http := h\<rparr>) = (r, s')"
      then show ?thesis using p by blast
    qed
    with 2 show ?thesis by (rule trans)
  qed
  with 1 show ?thesis by (rule trans)
qed

text \<open>What a read that returned bytes has done.\<close>

lemma download_data_read:
  assumes "download_data E room sz enc save s = (Inr (n, buf), s')" and "0 < n"
  shows "\<exists>sa sb bytes h sc sd.
           is_canceled s = (False, sa) \<and> open_stream sa = (Inr (), sb)
         \<and> http_read sz (http sb) = (n, bytes, h) \<and> nat n \<le> room
         \<and> sc = sb\<lparr>http := h, download_offset := download_offset sb + of_int n,
                    sha := sha256_update (sha sb) bytes\<rparr>
         \<and> decrypt_step E enc n bytes sc = (buf, sd)
         \<and> (if save \<noteq> 0 then save_step enc n buf sd = (Inr (), s') else s' = sd)"
  using assms
  by (auto simp: download_data_def process_read_def Let_def
      split: prod.splits bool.splits sum.splits if_splits)

lemma is_canceled_http: "is_canceled s = (c, s1) \<Longrightarrow> http s1 = http s"
  by (auto simp: is_canceled_def split: list.splits)

lemma decrypt_step_http: "decrypt_step E enc rd bytes s = (buf, s1) \<Longrightarrow> http s1 = http s"
  by (auto simp: decrypt_step_def split: if_splits)

lemma save_step_http: "save_step enc rd buf s = (r, s1) \<Longrightarrow> http s1 = http s"
  by (auto simp: save_step_def Let_def split: if_splits prod.splits bool.splits)

lemma download_data_progress:
  assumes "download_data E room sz enc save s = (Inr (n, buf), s')" and "0 < n"
  shows "remaining s' < remaining s"
proof -
  from download_data_read[OF assms] obtain sa sb bytes h sc sd where
    a: "is_canceled s = (False, sa)" and b: "open_stream sa = (Inr (), sb)"
    and c: "http_read sz (http sb) = (n, bytes, h)"
    and d: "sc = sb\<lparr>http := h, download_offset := download_offset sb + of_int n,
                    sha := sha256_update (sha sb) bytes\<rparr>"
    and e: "decrypt_step E enc n bytes sc = (buf, sd)"
    and f: "(if save \<noteq> 0 then save_step enc n buf sd = (Inr (), s') else s' = sd)"
    by blast
  have 1: "http s' = h"
    using d e f decrypt_step_http[OF e] save_step_http by (auto split: if_splits)
  have 2: "started (http sb)" "length (pending (http sb)) < remaining sa + (if started (http sa) then 1 else 0)"
    using open_stream_remaining[OF b] by auto
  have 3: "remaining sa = remaining s" "started (http sa) = started (http s)"
    using is_canceled_http[OF a] by (simp_all add: remaining_def)
  from http_read_shape[OF c assms(2)] have 4: "started h" "length (pending h) < length (pending (http sb))"
    using 2 assms(2) by auto
  show ?thesis using 1 2 3 4 by (auto simp: remaining_def split: if_splits)
qed

lemma remaining_frame [simp]:
  "remaining (s\<lparr>head := h\<rparr>) = remaining s"
  "remaining (s\<lparr>head_size := n\<rparr>) = remaining s"
  by (simp_all add: remaining_def)

lemma download_data_measure:
  "(Inr (n, buf), s') = download_data E room sz enc save s \<Longrightarrow> \<not> n \<le> 0
     \<Longrightarrow> remaining s' < remaining s"
  using download_data_progress [of E room sz enc save s n buf s'] by simp

section \<open>\<^verbatim>\<open>Download::download_head\<close>\<close>

text \<open>Storing what a read put at offset \<open>at\<close> of a buffer (the read fitted: see \<open>room\<close>).\<close>

definition store :: "u8 list \<Rightarrow> nat \<Rightarrow> u8 list \<Rightarrow> u8 list" where
  "store buffer at bytes = take at buffer @ bytes @ drop (at + length bytes) buffer"

text \<open>
  Every loop of the pipeline answers \<open>True\<close> when it ran to its end and \<open>False\<close> when a
  \<^verbatim>\<open>download_data\<close> gave \<open>size <= 0\<close>, where the source has \<^verbatim>\<open>return 0\<close>.
  Lines 167 to 178, with the local \<^verbatim>\<open>head_offset\<close>:
\<close>

function fill_header :: "cipher \<Rightarrow> u32 \<Rightarrow> download \<Rightarrow> bool outcome" where
  "fill_header E head_offset s =
     (if head_offset \<noteq> head_size s then
        (case download_data E (length (head s) - unat head_offset)
                (head_size s - head_offset) 0 1 s of
           (Inl e, s1) \<Rightarrow> (Inl e, s1)
         | (Inr (sz, buf), s1) \<Rightarrow>
             if sz \<le> 0 then (Inr False, s1)
             else fill_header E (head_offset + of_int sz)
                    (s1\<lparr>head := store (head s1) (unat head_offset) buf\<rparr>))
      else (Inr True, s))"
  by pat_completeness auto
termination
  by (relation "measure (\<lambda>(E, head_offset, s). remaining s)")
     (auto dest: download_data_measure)

text \<open>
  The three loops \<^verbatim>\<open>while (head_size != target)\<close> (lines 244, 296 and 331), which grow the
  head that is kept in memory.
\<close>

function grow_head :: "cipher \<Rightarrow> u32 \<Rightarrow> download \<Rightarrow> bool outcome" where
  "grow_head E target s =
     (if head_size s \<noteq> target then
        (case download_data E (length (head s) - unat (head_size s))
                (target - head_size s) 0 1 s of
           (Inl e, s1) \<Rightarrow> (Inl e, s1)
         | (Inr (sz, buf), s1) \<Rightarrow>
             if sz \<le> 0 then (Inr False, s1)
             else grow_head E target
                    (s1\<lparr>head := store (head s1) (unat (head_size s1)) buf,
                        head_size := head_size s1 + of_int sz\<rparr>))
      else (Inr True, s))"
  by pat_completeness auto
termination
  by (relation "measure (\<lambda>(E, target, s). remaining s)")
     (auto dest: download_data_measure)


text \<open>The four fixed keys, lines 12 to 15.\<close>

definition pkg_psp_key :: "u8 list" where
  "pkg_psp_key = [0x07, 0xf2, 0xc6, 0x82, 0x90, 0xb5, 0x0d, 0x2c,
                  0x33, 0x81, 0x8d, 0x70, 0x9b, 0x60, 0xe6, 0x2b]"

definition pkg_vita_2 :: "u8 list" where
  "pkg_vita_2 = [0xe3, 0x1a, 0x70, 0xc9, 0xce, 0x1d, 0xd7, 0x2b,
                 0xf3, 0xc0, 0x62, 0x29, 0x63, 0xf2, 0xec, 0xcb]"

definition pkg_vita_3 :: "u8 list" where
  "pkg_vita_3 = [0x42, 0x3a, 0xca, 0x3a, 0x2b, 0xd5, 0x64, 0x9f,
                 0x96, 0x86, 0xab, 0xad, 0x6f, 0xd8, 0x80, 0x1f]"

definition pkg_vita_4 :: "u8 list" where
  "pkg_vita_4 = [0xaf, 0x07, 0xfd, 0x59, 0x65, 0x25, 0x27, 0xba,
                 0xf1, 0x33, 0x89, 0x66, 0x8b, 0x17, 0xd9, 0xea]"

text \<open>
  Modelled from the spec: \<^verbatim>\<open>PKG_HEADER_SIZE\<close> and \<^verbatim>\<open>PKG_HEADER_EXT_SIZE\<close> of
  \<^verbatim>\<open>pkgi_download.hpp\<close>, "PKG_HEADER_SIZE + PKG_HEADER_EXT_SIZE (=192+64=256)".
\<close>

definition PKG_HEADER_SIZE :: nat where
  "PKG_HEADER_SIZE = 192"

definition PKG_HEADER_EXT_SIZE :: nat where
  "PKG_HEADER_EXT_SIZE = 64"

text \<open>
  Lines 214 to 239: the key ladder. \<open>header\<close> is the head buffer, \<open>iv0\<close> the IV copied from it.
\<close>

definition package_key :: "cipher \<Rightarrow> u8 list \<Rightarrow> u8 list \<Rightarrow> error + u8 list" where
  "package_key E header iv0 =
     (let key_type = uint (header ! 0xe7 AND 7) in
      if key_type = 1 then Inr pkg_psp_key
      else if key_type = 2 then Inr (E pkg_vita_2 iv0)
      else if key_type = 3 then Inr (E pkg_vita_3 iv0)
      else if key_type = 4 then Inr (E pkg_vita_4 iv0)
      else Inl (InvalidKeyType key_type))"

text \<open>
  Lines 180 to 241: the checks of the fixed header, its fields, the IV and the key.
  \<open>rif\<close> is the licence blob at the pointer, or \<open>None\<close> for a null pointer.
\<close>

definition parse_header :: "cipher \<Rightarrow> u8 list option \<Rightarrow> download \<Rightarrow> unit outcome" where
  "parse_header E rif s =
     (if get32be (head s) \<noteq> 0x7f504b47 \<or> get32be (drop PKG_HEADER_SIZE (head s)) \<noteq> 0x7F657874
      then (Inl BadPkgHeader, s)
      else if (case rif of None \<Rightarrow> False
               | Some r \<Rightarrow> \<not> pkgi_memequ (drop 0x10 r) (drop 0x30 (head s)) 0x30)
      then (Inl RifMismatch, s)
      else
        let s1 = s\<lparr>meta_offset := get32be (drop 8 (head s)),
                   meta_count := get32be (drop 12 (head s)),
                   index_count := get32be (drop 20 (head s)),
                   total_size := get64be (drop 24 (head s)),
                   enc_offset := get64be (drop 32 (head s)),
                   enc_size := get64be (drop 40 (head s))\<rparr>
        in if length (head s1) < unat (enc_offset s1) then (Inl HeadTooLarge, s1)
           else
             let s2 = s1\<lparr>iv := take 16 (drop 0x70 (head s1))\<rparr>
             in case package_key E (head s2) (iv s2) of
                  Inl e \<Rightarrow> (Inl e, s2)
                | Inr key \<Rightarrow> (Inr (), s2\<lparr>aes := key\<rparr>))"

lemma unat_succ_less: "(i :: 'a::len word) < m \<Longrightarrow> unat (i + 1) = Suc (unat i)"
proof -
  assume "i < m"
  then have a: "unat i < unat m" by (simp add: word_less_nat_alt)
  have b: "unat m < 2 ^ LENGTH('a)" by (rule unsigned_less)
  have c: "unat (1 :: 'a word) = 1" by simp
  from a b c have "unat i + unat (1 :: 'a word) < 2 ^ LENGTH('a)" by linarith
  then have "unat (i + 1) = unat i + unat (1 :: 'a word)" by (simp only: unat_add_lem)
  then show ?thesis by simp
qed

text \<open>
  Lines 257 to 287: the walk over the meta table, \<open>i\<close> and \<open>offset\<close> being the locals of the
  loop. An entry is read from the head buffer; an entry outside the buffer is undefined behaviour.
\<close>

function meta_walk :: "u32 \<Rightarrow> u32 \<Rightarrow> download \<Rightarrow> unit outcome" where
  "meta_walk i offset s =
     (if i < meta_count s then
        if enc_offset s \<le> ucast (offset + 16) then (Inl PkgTooSmallOrCorrupt, s)
        else if length (head s) < unat offset + 8 then (Inl UndefinedBehaviour, s)
        else
          let type = get32be (drop (unat offset) (head s));
              sz = get32be (drop (unat offset + 4) (head s))
          in if type = 2 then
               (if length (head s) < unat offset + 12 then (Inl UndefinedBehaviour, s)
                else
                  let s1 = s\<lparr>content_type := get32be (drop (unat offset + 8) (head s))\<rparr>
                  in if content_type s1 \<noteq> 21 \<and> content_type s1 \<noteq> 22 \<and> content_type s1 \<noteq> 6
                     then (Inl (UnsupportedPackageType (content_type s1)), s1)
                     else meta_walk (i + 1) (offset + 8 + sz) s1)
             else if type = 13 then
               (if length (head s) < unat offset + 16 then (Inl UndefinedBehaviour, s)
                else meta_walk (i + 1) (offset + 8 + sz)
                       (s\<lparr>index_size := get32be (drop (unat offset + 12) (head s))\<rparr>))
             else meta_walk (i + 1) (offset + 8 + sz) s
      else (Inr (), s))"
  by pat_completeness auto
termination
  by (relation "measure (\<lambda>(i, offset, s). unat (meta_count s) - unat i)")
     (auto simp: unat_succ_less word_less_nat_alt)

text \<open>Lines 243 to 305: the meta region, the meta table, the file index.\<close>

definition head_index :: "cipher \<Rightarrow> download \<Rightarrow> bool outcome" where
  "head_index E s =
     (case grow_head E (ucast (enc_offset s)) s of
        (Inl e, s1) \<Rightarrow> (Inl e, s1)
      | (Inr False, s1) \<Rightarrow> (Inr False, s1)
      | (Inr True, s1) \<Rightarrow>
          (case meta_walk 0 (meta_offset s1) (s1\<lparr>index_size := 0\<rparr>) of
             (Inl e, s2) \<Rightarrow> (Inl e, s2)
           | (Inr _, s2) \<Rightarrow>
               let target = (ucast (enc_offset s2 + ucast (index_count s2 * 32)) :: u32)
               in if length (head s2) < unat target then (Inl HeadTooLarge, s2)
                  else grow_head E target s2))"

text \<open>
  Lines 307 to 343: the first index record gives the offset of the first item, up to which
  the head holds the file names.
\<close>

definition head_names :: "cipher \<Rightarrow> download \<Rightarrow> int outcome" where
  "head_names E s =
     (if length (head s) < unat (enc_offset s) + 32 then (Inl UndefinedBehaviour, s)
      else
        let item = aes128_ctr E (aes s) (iv s) 0 (take 32 (drop (unat (enc_offset s)) (head s)));
            item_offset = get64be (drop 8 item)
        in if index_size s \<noteq> 0 \<and> item_offset \<noteq> ucast (index_size s)
           then (Inl (IndexSizeMismatch (index_size s) item_offset), s)
           else
             let target = (ucast (enc_offset s + item_offset) :: u32)
             in if length (head s) < unat target then (Inl HeadTooLarge, s)
                else (case grow_head E target s of
                        (Inl e, s1) \<Rightarrow> (Inl e, s1)
                      | (Inr False, s1) \<Rightarrow> (Inr 0, s1)
                      | (Inr True, s1) \<Rightarrow> (Inr 1, s1)))"

text \<open>
  \<^verbatim>\<open>BOOST_SCOPE_EXIT_ALL\<close>: however a phase ends, an open \<open>item_file\<close> is closed and the member
  set to \<^verbatim>\<open>NULL\<close>.
\<close>

definition scope_exit :: "'a outcome \<Rightarrow> 'a outcome" where
  "scope_exit r = (fst r, (snd r)\<lparr>item_file := None\<rparr>)"

definition download_head_body :: "cipher \<Rightarrow> u8 list option \<Rightarrow> download \<Rightarrow> int outcome" where
  "download_head_body E rif s =
     (case create_file s of
        (Inl e, s1) \<Rightarrow> (Inl e, s1)
      | (Inr _, s1) \<Rightarrow>
          (case fill_header E 0 (s1\<lparr>head_size := of_nat (PKG_HEADER_SIZE + PKG_HEADER_EXT_SIZE)\<rparr>) of
             (Inl e, s2) \<Rightarrow> (Inl e, s2)
           | (Inr False, s2) \<Rightarrow> (Inr 0, s2)
           | (Inr True, s2) \<Rightarrow>
               (case parse_header E rif s2 of
                  (Inl e, s3) \<Rightarrow> (Inl e, s3)
                | (Inr _, s3) \<Rightarrow>
                    (case head_index E s3 of
                       (Inl e, s4) \<Rightarrow> (Inl e, s4)
                     | (Inr False, s4) \<Rightarrow> (Inr 0, s4)
                     | (Inr True, s4) \<Rightarrow> head_names E s4))))"

definition download_head :: "cipher \<Rightarrow> u8 list option \<Rightarrow> download \<Rightarrow> int outcome" where
  "download_head E rif s =
     scope_exit (download_head_body E rif
       (s\<lparr>item_name := ''Preparing...'',
          item_path := snprintf256 (root s @ ''/sce_sys/package/head.bin'')\<rparr>))"


section \<open>\<^verbatim>\<open>Download::download_files\<close>\<close>

text \<open>
  The two loops \<^verbatim>\<open>while (encrypted_offset != encrypted_size)\<close> (lines 407 and 456) differ in
  the \<open>save\<close> flag only.
\<close>

function drain_item :: "cipher \<Rightarrow> u64 \<Rightarrow> int \<Rightarrow> download \<Rightarrow> bool outcome" where
  "drain_item E encrypted_size save s =
     (if encrypted_offset s \<noteq> encrypted_size then
        (let read = (ucast (min64 (of_nat (down_size s)) (encrypted_size - encrypted_offset s)) :: u32)
         in case download_data E (down_size s) read 1 save s of
              (Inl e, s1) \<Rightarrow> (Inl e, s1)
            | (Inr (sz, buf), s1) \<Rightarrow>
                if sz \<le> 0 then (Inr False, s1)
                else drain_item E encrypted_size save s1)
      else (Inr True, s))"
  by pat_completeness auto
termination
  by (relation "measure (\<lambda>(E, encrypted_size, save, s). remaining s)")
     (auto dest: download_data_measure)

text \<open>Lines 424 to 468: a directory, a skipped entry, or a file that is created and filled.\<close>

definition store_item :: "cipher \<Rightarrow> u8 \<Rightarrow> u64 \<Rightarrow> u64 \<Rightarrow> u64 \<Rightarrow> download \<Rightarrow> bool outcome" where
  "store_item E type item_offset item_size encrypted_size s =
     (if type = 4 then (Inr True, s\<lparr>fs := snd (pkgi_mkdirs (item_path s) (fs s))\<rparr>)
      else if type = 18 then (Inr True, s)
      else
        (case create_file s of
           (Inl e, s1) \<Rightarrow> (Inl e, s1)
         | (Inr _, s1) \<Rightarrow>
             if enc_offset s1 + item_offset + encrypted_offset s1 \<noteq> download_offset s1
             then (Inl (FileOrdering (enc_offset s1 + item_offset + encrypted_offset s1)
                                     (download_offset s1)), s1)
             else if total_size s1 < enc_offset s1 + item_offset + item_size
             then (Inl PkgTooSmallOrCorrupt, s1)
             else
               (case drain_item E encrypted_size 1 s1 of
                  (Inl e, s2) \<Rightarrow> (Inl e, s2)
                | (Inr False, s2) \<Rightarrow> (Inr False, s2)
                | (Inr True, s2) \<Rightarrow> (Inr True, s2\<lparr>item_file := None\<rparr>))))"

text \<open>Lines 397 to 422: where an entry goes, by content type.\<close>

definition place_item :: "cipher \<Rightarrow> u8 \<Rightarrow> u64 \<Rightarrow> u64 \<Rightarrow> u64 \<Rightarrow> download \<Rightarrow> bool outcome" where
  "place_item E type item_offset item_size encrypted_size s =
     (if content_type s = 6 then
        (if item_name s = ''USRDIR/CONTENT/DOCUMENT.DAT'' then
           store_item E type item_offset item_size encrypted_size
             (s\<lparr>item_path := snprintf256 (root s @ ''/DOCUMENT.DAT'')\<rparr>)
         else if item_name s = ''USRDIR/CONTENT/EBOOT.PBP'' then
           store_item E type item_offset item_size encrypted_size
             (s\<lparr>item_path := snprintf256 (root s @ ''/EBOOT.PBP'')\<rparr>)
         else drain_item E encrypted_size 0 s)
      else
        store_item E type item_offset item_size encrypted_size
          (s\<lparr>item_path := snprintf256 (root s @ ''/'' @ item_name s)\<rparr>))"

text \<open>
  Lines 361 to 364: the index record of an entry, copied from the head buffer and decrypted.
  \<^verbatim>\<open>sizeof(item) * index\<close> is a product of \<^verbatim>\<open>size_t\<close>.
\<close>

definition index_record :: "cipher \<Rightarrow> u32 \<Rightarrow> download \<Rightarrow> u8 list" where
  "index_record E index s =
     aes128_ctr E (aes s) (iv s) (unat (32 * index))
       (take 32 (drop (unat (enc_offset s) + unat (32 * index)) (head s)))"

text \<open>Lines 378 and 379: the name of an entry, copied from the head buffer and decrypted.\<close>

definition name_bytes :: "cipher \<Rightarrow> u32 \<Rightarrow> u32 \<Rightarrow> download \<Rightarrow> u8 list" where
  "name_bytes E name_offset name_size s =
     aes128_ctr E (aes s) (iv s) (unat name_offset)
       (take (unat name_size) (drop (unat (enc_offset s) + unat name_offset) (head s)))"

text \<open>
  Lines 361 to 395: the body of the loop over the index, up to the choice of the path. A record
  or a name outside the head buffer is undefined behaviour.
\<close>

definition process_entry :: "cipher \<Rightarrow> u32 \<Rightarrow> download \<Rightarrow> bool outcome" where
  "process_entry E index s =
     (if length (head s) < unat (enc_offset s) + unat (32 * index) + 32
      then (Inl UndefinedBehaviour, s)
      else
        let item = index_record E index s;
            name_offset = get32be item;
            name_size = get32be (drop 4 item);
            item_offset = get64be (drop 8 item);
            item_size = get64be (drop 16 item);
            type = item ! 27
        in if 255 < name_size \<or> total_size s < enc_offset s + ucast name_offset + ucast name_size
           then (Inl PkgTooSmallOrCorrupt, s)
           else if length (head s) < unat (enc_offset s) + unat name_offset + unat name_size
           then (Inl UndefinedBehaviour, s)
           else
             place_item E type item_offset item_size ((item_size + 16 - 1) AND NOT (16 - 1))
               (s\<lparr>item_name := c_string (name_bytes E name_offset name_size s),
                  decrypted_size := item_size,
                  encrypted_base := item_offset,
                  encrypted_offset := 0,
                  item_index := sint index\<rparr>))"

text \<open>An entry is either refused, with the state as it was, or placed.\<close>

lemma process_entry_cases:
  "process_entry E index s = (Inl UndefinedBehaviour, s)
   \<or> process_entry E index s = (Inl PkgTooSmallOrCorrupt, s)
   \<or> process_entry E index s =
       place_item E (index_record E index s ! 27)
         (get64be (drop 8 (index_record E index s)))
         (get64be (drop 16 (index_record E index s)))
         ((get64be (drop 16 (index_record E index s)) + 16 - 1) AND NOT (16 - 1))
         (s\<lparr>item_name := c_string (name_bytes E (get32be (index_record E index s))
                                        (get32be (drop 4 (index_record E index s))) s),
            decrypted_size := get64be (drop 16 (index_record E index s)),
            encrypted_base := get64be (drop 8 (index_record E index s)),
            encrypted_offset := 0,
            item_index := sint index\<rparr>)"
  by (simp add: process_entry_def Let_def)

text \<open>The members that no call of \<open>download_data\<close> changes.\<close>

definition untouched :: "download \<Rightarrow> download \<Rightarrow> bool" where
  "untouched s s' \<longleftrightarrow>
     root s' = root s \<and> download_content s' = download_content s
   \<and> download_url s' = download_url s \<and> iv s' = iv s \<and> aes s' = aes s
   \<and> item_file s' = item_file s \<and> item_name s' = item_name s \<and> item_path s' = item_path s
   \<and> item_index s' = item_index s \<and> head s' = head s \<and> head_size s' = head_size s
   \<and> down_size s' = down_size s \<and> meta_offset s' = meta_offset s
   \<and> meta_count s' = meta_count s \<and> index_count s' = index_count s
   \<and> total_size s' = total_size s \<and> enc_offset s' = enc_offset s \<and> enc_size s' = enc_size s
   \<and> index_size s' = index_size s \<and> content_type s' = content_type s
   \<and> encrypted_base s' = encrypted_base s"

lemma untouched_refl: "untouched s s"
  by (simp add: untouched_def)

lemma untouched_trans: "untouched a b \<Longrightarrow> untouched b c \<Longrightarrow> untouched a c"
  by (simp add: untouched_def)

lemma decrypt_step_untouched:
  "decrypt_step E enc rd bytes s = (buf, s1) \<Longrightarrow> untouched s s1"
  by (auto simp: decrypt_step_def untouched_def split: if_splits)

lemma save_step_untouched: "save_step enc rd buf s = (r, s1) \<Longrightarrow> untouched s s1"
  by (cases "enc = 0")
     (auto simp: save_step_def untouched_def Let_def split: prod.splits bool.splits)

lemma process_read_untouched:
  assumes "process_read E enc save rd bytes (s\<lparr>http := h\<rparr>) = (r, s1)"
  shows "untouched s s1"
proof (cases "rd \<le> 0")
  case True
  with assms have "s1 = s\<lparr>http := h\<rparr>" by (auto simp: process_read_def split: if_splits)
  then show ?thesis by (simp add: untouched_def)
next
  case False
  define s2 where "s2 = s\<lparr>http := h, download_offset := download_offset s + of_int rd,
                          sha := sha256_update (sha s) bytes\<rparr>"
  obtain buf s3 where d: "decrypt_step E enc rd bytes s2 = (buf, s3)"
    by (cases "decrypt_step E enc rd bytes s2")
  have a: "untouched s s2" by (simp add: s2_def untouched_def)
  have b: "untouched s2 s3" using d by (rule decrypt_step_untouched)
  have "s1 = s3 \<or> (\<exists>r'. save_step enc rd buf s3 = (r', s1))"
    using assms False d
    by (auto simp: process_read_def Let_def s2_def split: if_splits prod.splits sum.splits)
  then have "untouched s3 s1"
    using save_step_untouched untouched_refl by blast
  with a b show ?thesis by (blast intro: untouched_trans)
qed

lemma download_data_untouched:
  "download_data E room sz enc save s = (r, s') \<Longrightarrow> untouched s s'"
proof (erule download_data_rel [rotated -1])
  show "\<And>s. untouched s s" by (rule untouched_refl)
  show "\<And>a b c. untouched a b \<Longrightarrow> untouched b c \<Longrightarrow> untouched a c" by (rule untouched_trans)
  show "\<And>s c s1. is_canceled s = (c, s1) \<Longrightarrow> untouched s s1"
    by (auto simp: is_canceled_def untouched_def split: list.splits)
  show "\<And>s u s1. open_stream s = (u, s1) \<Longrightarrow> untouched s s1"
    by (auto simp: open_stream_def untouched_def Let_def split: if_splits)
  show "\<And>s rd bytes h r s1. http_read sz (http s) = (rd, bytes, h) \<Longrightarrow>
          process_read E enc save rd bytes (s\<lparr>http := h\<rparr>) = (r, s1) \<Longrightarrow> untouched s s1"
    by (rule process_read_untouched)
qed


declare fill_header.simps [simp del] grow_head.simps [simp del] drain_item.simps [simp del]
  meta_walk.simps [simp del]

text \<open>
  A relation between the state before and after that every \<open>download_data\<close> establishes, and
  that is reflexive and transitive, holds across a loop of reads.
\<close>

lemma drain_item_rel:
  "\<lbrakk>drain_item E n save s = (r, s'); \<And>s. R s s; \<And>a b c. R a b \<Longrightarrow> R b c \<Longrightarrow> R a c;
    \<And>room sz s r s'. download_data E room sz 1 save s = (r, s') \<Longrightarrow> R s s'\<rbrakk>
   \<Longrightarrow> R s s'"
proof (induction E n save s rule: drain_item.induct)
  case (1 E n save s)
  note refl = "1.prems"(2) and trans = "1.prems"(3) and step = "1.prems"(4)
  show ?case
  proof (cases "encrypted_offset s = n")
    case True
    with "1.prems"(1) have "s' = s" by (simp add: drain_item.simps)
    then show ?thesis by (simp add: refl)
  next
    case False
    define read :: u32 where
      "read = ucast (min64 (of_nat (down_size s)) (n - encrypted_offset s))"
    obtain q s1 where d: "download_data E (down_size s) read 1 save s = (q, s1)"
      by (cases "download_data E (down_size s) read 1 save s")
    have a: "R s s1" using d by (rule step)
    show ?thesis
    proof (cases q)
      case (Inl e)
      with "1.prems"(1) False d have "s' = s1"
        by (simp add: drain_item.simps [of E n save s] read_def)
      with a show ?thesis by simp
    next
      case (Inr x)
      obtain sz buf where x: "x = (sz, buf)" by (cases x)
      show ?thesis
      proof (cases "sz \<le> 0")
        case True
        with "1.prems"(1) False d Inr x have "s' = s1"
          by (simp add: drain_item.simps [of E n save s] read_def)
        with a show ?thesis by simp
      next
        case nonpos: False
        with "1.prems"(1) False d Inr x have run: "drain_item E n save s1 = (r, s')"
          by (simp add: drain_item.simps [of E n save s] read_def)
        have "R s1 s'"
          by (rule "1.IH" [OF False read_def d [symmetric] Inr x [symmetric] nonpos run refl trans step])
        with a show ?thesis by (rule trans)
      qed
    qed
  qed
qed


text \<open>What the header and the meta table gave, which no later phase changes.\<close>

definition same_package :: "download \<Rightarrow> download \<Rightarrow> bool" where
  "same_package s s' \<longleftrightarrow>
     root s' = root s \<and> download_content s' = download_content s
   \<and> download_url s' = download_url s \<and> iv s' = iv s \<and> aes s' = aes s
   \<and> head s' = head s \<and> head_size s' = head_size s
   \<and> down_size s' = down_size s \<and> meta_offset s' = meta_offset s
   \<and> meta_count s' = meta_count s \<and> index_count s' = index_count s
   \<and> total_size s' = total_size s \<and> enc_offset s' = enc_offset s \<and> enc_size s' = enc_size s
   \<and> index_size s' = index_size s \<and> content_type s' = content_type s"

lemma same_package_refl: "same_package s s"
  by (simp add: same_package_def)

lemma same_package_trans: "same_package a b \<Longrightarrow> same_package b c \<Longrightarrow> same_package a c"
  by (simp add: same_package_def)

lemma untouched_same_package: "untouched s s' \<Longrightarrow> same_package s s'"
  by (simp add: untouched_def same_package_def)

lemma create_file_same_package: "create_file s = (r, s') \<Longrightarrow> same_package s s'"
  by (auto simp: create_file_def same_package_def pkgi_mkdirs_def pkgi_create_def
      split: option.splits if_splits)

lemma drain_item_same_package: "drain_item E n save s = (r, s') \<Longrightarrow> same_package s s'"
  by (erule drain_item_rel)
     (auto intro: same_package_refl same_package_trans untouched_same_package
        download_data_untouched)

lemma store_item_same_package:
  assumes "store_item E type item_offset item_size encrypted_size s = (r, s')"
  shows "same_package s s'"
proof (cases "type = 4 \<or> type = 18")
  case True
  with assms show ?thesis by (auto simp: store_item_def same_package_def split: if_splits)
next
  case False
  obtain q s1 where c: "create_file s = (q, s1)" by (cases "create_file s")
  have a: "same_package s s1" using c by (rule create_file_same_package)
  obtain q2 s2 where d: "drain_item E encrypted_size 1 s1 = (q2, s2)"
    by (cases "drain_item E encrypted_size 1 s1")
  have b: "same_package s1 s2" using d by (rule drain_item_same_package)
  have "s' = s1 \<or> s' = s2 \<or> s' = s2\<lparr>item_file := None\<rparr>"
    using assms False c d
    by (auto simp: store_item_def split: if_splits sum.splits bool.splits)
  then have "same_package s1 s'"
    using b by (auto simp: same_package_def)
  with a show ?thesis by (rule same_package_trans)
qed

lemma place_item_same_package:
  assumes "place_item E type item_offset item_size encrypted_size s = (r, s')"
  shows "same_package s s'"
proof -
  have "drain_item E encrypted_size 0 s = (r, s')
        \<or> (\<exists>p. store_item E type item_offset item_size encrypted_size (s\<lparr>item_path := p\<rparr>) = (r, s'))"
    using assms by (auto simp: place_item_def split: if_splits)
  then show ?thesis
  proof
    assume "drain_item E encrypted_size 0 s = (r, s')"
    then show ?thesis by (rule drain_item_same_package)
  next
    assume "\<exists>p. store_item E type item_offset item_size encrypted_size (s\<lparr>item_path := p\<rparr>) = (r, s')"
    then obtain p where "store_item E type item_offset item_size encrypted_size (s\<lparr>item_path := p\<rparr>) = (r, s')"
      by blast
    then have "same_package (s\<lparr>item_path := p\<rparr>) s'" by (rule store_item_same_package)
    then show ?thesis by (simp add: same_package_def)
  qed
qed

lemma process_entry_same_package:
  assumes "process_entry E index s = (r, s')"
  shows "same_package s s'"
proof -
  let ?s1 = "s\<lparr>item_name := c_string (name_bytes E (get32be (index_record E index s))
                                        (get32be (drop 4 (index_record E index s))) s),
            decrypted_size := get64be (drop 16 (index_record E index s)),
            encrypted_base := get64be (drop 8 (index_record E index s)),
            encrypted_offset := 0,
            item_index := sint index\<rparr>"
  from process_entry_cases [of E index s] assms
  have "s' = s \<or> place_item E (index_record E index s ! 27)
         (get64be (drop 8 (index_record E index s)))
         (get64be (drop 16 (index_record E index s)))
         ((get64be (drop 16 (index_record E index s)) + 16 - 1) AND NOT (16 - 1)) ?s1 = (r, s')"
    by auto
  then show ?thesis
  proof
    assume "s' = s"
    then show ?thesis by (simp add: same_package_refl)
  next
    assume "place_item E (index_record E index s ! 27)
         (get64be (drop 8 (index_record E index s)))
         (get64be (drop 16 (index_record E index s)))
         ((get64be (drop 16 (index_record E index s)) + 16 - 1) AND NOT (16 - 1)) ?s1 = (r, s')"
    then have "same_package ?s1 s'" by (rule place_item_same_package)
    then show ?thesis by (simp add: same_package_def)
  qed
qed

text \<open>Lines 359 to 474: the loop over the index.\<close>

function download_files_loop :: "cipher \<Rightarrow> u32 \<Rightarrow> download \<Rightarrow> int outcome" where
  "download_files_loop E index s =
     (if index < index_count s then
        (case process_entry E index s of
           (Inl e, s1) \<Rightarrow> (Inl e, s1)
         | (Inr False, s1) \<Rightarrow> (Inr 0, s1)
         | (Inr True, s1) \<Rightarrow> download_files_loop E (index + 1) s1)
      else (Inr 1, s\<lparr>item_index := - 1\<rparr>))"
  by pat_completeness auto
termination
proof (relation "measure (\<lambda>(E, index, s). unat (index_count s) - unat index)")
  show "wf (measure (\<lambda>(E, index, s). unat (index_count s) - unat index))" by simp
next
  fix E :: cipher and index :: u32 and s x y x2
  assume a: "index < index_count s" and b: "(x, y) = process_entry E index s"
  have "same_package s y" using b [symmetric] by (rule process_entry_same_package)
  then have "index_count y = index_count s" by (simp add: same_package_def)
  with a show "((E, index + 1, y), E, index, s)
        \<in> measure (\<lambda>(E, index, s). unat (index_count s) - unat index)"
    by (simp add: unat_succ_less word_less_nat_alt)
qed

declare download_files_loop.simps [simp del]

definition download_files :: "cipher \<Rightarrow> download \<Rightarrow> int outcome" where
  "download_files E s = scope_exit (download_files_loop E 0 s)"

section \<open>\<^verbatim>\<open>Download::download_tail\<close>\<close>

text \<open>Lines 502 to 511: what lies before the tail is read and dropped.\<close>

function skip_to_tail :: "cipher \<Rightarrow> u64 \<Rightarrow> download \<Rightarrow> bool outcome" where
  "skip_to_tail E tail_offset s =
     (if download_offset s < tail_offset then
        (let read = (ucast (min64 (of_nat (down_size s)) (tail_offset - download_offset s)) :: u32)
         in case download_data E (down_size s) read 0 0 s of
              (Inl e, s1) \<Rightarrow> (Inl e, s1)
            | (Inr (sz, buf), s1) \<Rightarrow>
                if sz \<le> 0 then (Inr False, s1)
                else skip_to_tail E tail_offset s1)
      else (Inr True, s))"
  by pat_completeness auto
termination
  by (relation "measure (\<lambda>(E, tail_offset, s). remaining s)")
     (auto dest: download_data_measure)

text \<open>Lines 513 to 522: the tail itself, saved unless the content type is 6.\<close>

function read_tail :: "cipher \<Rightarrow> download \<Rightarrow> bool outcome" where
  "read_tail E s =
     (if download_offset s \<noteq> total_size s then
        (let read = (ucast (min64 (of_nat (down_size s)) (total_size s - download_offset s)) :: u32)
         in case download_data E (down_size s) read 0 (if content_type s \<noteq> 6 then 1 else 0) s of
              (Inl e, s1) \<Rightarrow> (Inl e, s1)
            | (Inr (sz, buf), s1) \<Rightarrow>
                if sz \<le> 0 then (Inr False, s1)
                else read_tail E s1)
      else (Inr True, s))"
  by pat_completeness auto
termination
  by (relation "measure (\<lambda>(E, s). remaining s)")
     (auto dest: download_data_measure)

declare skip_to_tail.simps [simp del] read_tail.simps [simp del]

definition download_tail_body :: "cipher \<Rightarrow> download \<Rightarrow> int outcome" where
  "download_tail_body E s =
     (case create_file s of
        (Inl e, s1) \<Rightarrow> (Inl e, s1)
      | (Inr _, s1) \<Rightarrow>
          (case skip_to_tail E (enc_offset s1 + enc_size s1) s1 of
             (Inl e, s2) \<Rightarrow> (Inl e, s2)
           | (Inr False, s2) \<Rightarrow> (Inr 0, s2)
           | (Inr True, s2) \<Rightarrow>
               (case read_tail E s2 of
                  (Inl e, s3) \<Rightarrow> (Inl e, s3)
                | (Inr False, s3) \<Rightarrow> (Inr 0, s3)
                | (Inr True, s3) \<Rightarrow> (Inr 1, s3))))"

definition download_tail :: "cipher \<Rightarrow> download \<Rightarrow> int outcome" where
  "download_tail E s =
     scope_exit (download_tail_body E
       (s\<lparr>item_name := ''Finishing...'',
          item_path := snprintf256 (root s @ ''/sce_sys/package/tail.bin'')\<rparr>))"

section \<open>Integrity, \<^verbatim>\<open>stat.bin\<close>, \<^verbatim>\<open>work.bin\<close> and the whole run\<close>

text \<open>
  \<^verbatim>\<open>check_integrity(digest)\<close>: \<open>digest\<close> is the 32 bytes at the pointer, or \<open>None\<close> for a null
  pointer; \<open>H\<close> is the hash function. \<^verbatim>\<open>SHA256_DIGEST_SIZE\<close> is 32.
\<close>

definition check_integrity :: "(u8 list \<Rightarrow> u8 list) \<Rightarrow> u8 list option \<Rightarrow> download \<Rightarrow> int outcome" where
  "check_integrity H digest s =
     (case digest of
        None \<Rightarrow> (Inr 1, s)
      | Some d \<Rightarrow>
          (case sha256_finish H (sha s) of
             (check, c) \<Rightarrow>
               let s1 = s\<lparr>sha := c\<rparr> in
               if \<not> pkgi_memequ d check 32
               then (Inl IntegrityMismatch,
                     s1\<lparr>fs := pkgi_rm (snprintf256 (root s1 @ ''/sce_sys/package/head.bin'')) (fs s1)\<rparr>)
               else (Inr 1, s1)))"

definition create_stat :: "download \<Rightarrow> int outcome" where
  "create_stat s =
     (let path = snprintf256 (root s @ ''/sce_sys/package/stat.bin'')
      in case pkgi_save path (replicate 768 0) (fs s) of
           (False, f) \<Rightarrow> (Inl (CannotSave path), s\<lparr>fs := f\<rparr>)
         | (True, f) \<Rightarrow> (Inr 1, s\<lparr>fs := f\<rparr>))"

text \<open>\<open>rif\<close> is the licence, the \<^verbatim>\<open>PKGI_RIF_SIZE\<close> bytes at the pointer.\<close>

definition create_rif :: "u8 list \<Rightarrow> download \<Rightarrow> int outcome" where
  "create_rif rif s =
     (let path = snprintf256 (root s @ ''/sce_sys/package/work.bin'')
      in case pkgi_save path rif (fs s) of
           (False, f) \<Rightarrow> (Inl (CannotSave path), s\<lparr>fs := f\<rparr>)
         | (True, f) \<Rightarrow> (Inr 1, s\<lparr>fs := f\<rparr>))"

text \<open>
  Modelled from the spec: \<^verbatim>\<open>pkgi_get_temp_folder()\<close> (not among the sources), the staging
  root "<temp_root>"; \<^verbatim>\<open>src/install.cpp\<close> takes the staged directory from \<^verbatim>\<open>ux0:pkgj\<close>.
\<close>

definition pkgi_get_temp_folder :: string where
  "pkgi_get_temp_folder = ''ux0:pkgj''"

text \<open>Lines 616 to 635, after the members are reset.\<close>

definition run_phases ::
  "cipher \<Rightarrow> (u8 list \<Rightarrow> u8 list) \<Rightarrow> u8 list option \<Rightarrow> u8 list option \<Rightarrow> download \<Rightarrow> int outcome" where
  "run_phases E H rif digest s =
     (case download_head E rif s of
        (Inl e, s1) \<Rightarrow> (Inl e, s1)
      | (Inr r1, s1) \<Rightarrow>
          if r1 = 0 then (Inr 0, s1)
          else
            (case download_files E s1 of
               (Inl e, s2) \<Rightarrow> (Inl e, s2)
             | (Inr r2, s2) \<Rightarrow>
                 if r2 = 0 then (Inr 0, s2)
                 else
                   (case download_tail E s2 of
                      (Inl e, s3) \<Rightarrow> (Inl e, s3)
                    | (Inr r3, s3) \<Rightarrow>
                        if r3 = 0 then (Inr 0, s3)
                        else
                          (case (if content_type s3 \<noteq> 6 then create_stat s3 else (Inr 1, s3)) of
                             (Inl e, s4) \<Rightarrow> (Inl e, s4)
                           | (Inr _, s4) \<Rightarrow>
                               (case check_integrity H digest s4 of
                                  (Inl e, s5) \<Rightarrow> (Inl e, s5)
                                | (Inr _, s5) \<Rightarrow>
                                    (case rif of
                                       None \<Rightarrow> (Inr 1, s5)
                                     | Some r \<Rightarrow>
                                         (case create_rif r s5 of
                                            (Inl e, s6) \<Rightarrow> (Inl e, s6)
                                          | (Inr _, s6) \<Rightarrow> (Inr 1, s6))))))))"

definition pkgi_download ::
  "cipher \<Rightarrow> (u8 list \<Rightarrow> u8 list) \<Rightarrow> string \<Rightarrow> string \<Rightarrow> u8 list option \<Rightarrow> u8 list option
     \<Rightarrow> download \<Rightarrow> int outcome" where
  "pkgi_download E H content url rif digest s =
     run_phases E H rif digest
       (s\<lparr>root := snprintf256 (pkgi_get_temp_folder @ ''/'' @ content),
          sha := sha256_init,
          item_file := None,
          item_index := - 1,
          download_size := 0,
          download_offset := 0,
          download_content := content,
          download_url := url\<rparr>)"


section \<open>\<^verbatim>\<open>src/install.cpp\<close>\<close>

text \<open>
  The errors of \<^verbatim>\<open>install.cpp\<close> are \<^verbatim>\<open>std::runtime_error\<close>s, one constructor for each
  \<^verbatim>\<open>throw\<close> of \<^verbatim>\<open>pkgi_install_update\<close> and of the helpers it calls. \<open>BadContentId\<close> is no
  exception: \<^verbatim>\<open>contentid + 7\<close> points past the end of a content id shorter than 7 characters.
\<close>

datatype install_error =
    DeleteFailed string
  | RenameFailed string string
  | LoadFailed string
  | NoVersion
  | BadVersionSize nat
  | DbOpenFailed
  | DbPrepareFailed
  | DbStepFailed
  | BadContentId

text \<open>
  Modelled from the spec: the rest of the I/O facade (\<^verbatim>\<open>file.hpp\<close>, not among the sources).
  A path lies in a directory when it is the directory or continues it after a slash.
\<close>

definition inside :: "string \<Rightarrow> string \<Rightarrow> bool" where
  "inside dir path \<longleftrightarrow> path = dir \<or> take (Suc (length dir)) path = dir @ ''/''"

definition pkgi_file_exists :: "string \<Rightarrow> filesys \<Rightarrow> bool" where
  "pkgi_file_exists path f \<longleftrightarrow> path \<in> dirs f \<or> files f path \<noteq> None"

definition pkgi_load :: "string \<Rightarrow> filesys \<Rightarrow> install_error + u8 list" where
  "pkgi_load path f =
     (if refuses f Load path then Inl (LoadFailed path)
      else case files f path of None \<Rightarrow> Inl (LoadFailed path) | Some content \<Rightarrow> Inr content)"

definition pkgi_delete_dir :: "string \<Rightarrow> filesys \<Rightarrow> bool \<times> filesys" where
  "pkgi_delete_dir dir f =
     (if refuses f Delete dir then (False, f)
      else (True, f\<lparr>files := (\<lambda>p. if inside dir p then None else files f p),
                    dirs := {p \<in> dirs f. \<not> inside dir p}\<rparr>))"

text \<open>
  \<^verbatim>\<open>sceIoRename\<close> of a directory: it fails when refused or when there is nothing at \<open>src\<close>;
  otherwise everything inside \<open>src\<close> is found inside \<open>dest\<close> afterwards.
\<close>

definition moved :: "string \<Rightarrow> string \<Rightarrow> string \<Rightarrow> string" where
  "moved src dest path = src @ drop (length dest) path"

definition sceIoRename :: "string \<Rightarrow> string \<Rightarrow> filesys \<Rightarrow> bool \<times> filesys" where
  "sceIoRename src dest f =
     (if refuses f Rename src \<or> \<not> pkgi_file_exists src f then (False, f)
      else (True, f\<lparr>files := (\<lambda>p. if inside dest p then files f (moved src dest p)
                                  else if inside src p then None else files f p),
                    dirs := {p. if inside dest p then moved src dest p \<in> dirs f
                                else \<not> inside src p \<and> p \<in> dirs f}\<rparr>))"

text \<open>
  Modelled from the spec: the application database of the shell, "UPDATE on tbl_appinfo where
  key = 3168212510". A row is (titleId, key, val); \<open>db_refuses\<close> says which of the calls
  \<^verbatim>\<open>sqlite3_open\<close>, \<^verbatim>\<open>sqlite3_prepare_v2\<close>, \<^verbatim>\<open>sqlite3_step\<close> fail.
\<close>

datatype db_call = DbOpen | DbPrepare | DbStep

record app_db =
  tbl_appinfo :: "(string \<times> nat \<times> string) list"
  db_refuses :: "db_call \<Rightarrow> bool"

definition update_val :: "string \<Rightarrow> string \<Rightarrow> (string \<times> nat \<times> string) \<Rightarrow> (string \<times> nat \<times> string)" where
  "update_val val titleId row =
     (case row of (t, k, v) \<Rightarrow> if t = titleId \<and> k = 3168212510 then (t, k, val) else (t, k, v))"

record console =
  disk :: filesys
  app_database :: app_db

text \<open>
  \<^verbatim>\<open>pkgi_sfo_get_string\<close> (\<^verbatim>\<open>sfo.hpp\<close>, not among the sources) is the parameter \<open>sfo\<close>: the
  bytes of a \<^verbatim>\<open>param.sfo\<close> and a key give a string. Lines 21 to 25:
\<close>

definition pkgi_extract_package_version ::
  "(u8 list \<Rightarrow> string \<Rightarrow> string) \<Rightarrow> string \<Rightarrow> filesys \<Rightarrow> install_error + string" where
  "pkgi_extract_package_version sfo package f =
     (case pkgi_load (package @ ''/sce_sys/param.sfo'') f of
        Inl e \<Rightarrow> Inl e
      | Inr content \<Rightarrow> Inr (sfo content ''APP_VER''))"

text \<open>Lines 28 to 39.\<close>

definition pkgi_get_game_version ::
  "(u8 list \<Rightarrow> string \<Rightarrow> string) \<Rightarrow> string \<Rightarrow> filesys \<Rightarrow> install_error + string" where
  "pkgi_get_game_version sfo titleid f =
     (let patch_dir = ''ux0:patch/'' @ titleid in
      if pkgi_file_exists patch_dir f then pkgi_extract_package_version sfo patch_dir f
      else
        let game_dir = ''ux0:app/'' @ titleid in
        if pkgi_file_exists game_dir f then pkgi_extract_package_version sfo game_dir f
        else Inr '''')"

text \<open>Lines 115 to 145: the update of the shell's row.\<close>

definition update_app_version :: "string \<Rightarrow> string \<Rightarrow> app_db \<Rightarrow> install_error + app_db" where
  "update_app_version version titleid db =
     (if db_refuses db DbOpen then Inl DbOpenFailed
      else if db_refuses db DbPrepare then Inl DbPrepareFailed
      else if db_refuses db DbStep then Inl DbStepFailed
      else Inr (db\<lparr>tbl_appinfo := map (update_val version titleid) (tbl_appinfo db)\<rparr>))"

text \<open>Lines 88 to 146.\<close>

definition pkgi_install_update ::
  "(u8 list \<Rightarrow> string \<Rightarrow> string) \<Rightarrow> string \<Rightarrow> console \<Rightarrow> (install_error + unit) \<times> console" where
  "pkgi_install_update sfo contentid c =
     (let c1 = c\<lparr>disk := snd (pkgi_mkdirs ''ux0:patch'' (disk c))\<rparr> in
      if length contentid < 7 then (Inl BadContentId, c1)
      else
        let titleid = take 9 (drop 7 contentid);
            src = ''ux0:pkgj/'' @ contentid;
            dest = ''ux0:patch/'' @ titleid
        in case pkgi_delete_dir dest (disk c1) of
             (False, f) \<Rightarrow> (Inl (DeleteFailed dest), c1\<lparr>disk := f\<rparr>)
           | (True, f) \<Rightarrow>
               (case sceIoRename src dest f of
                  (False, f') \<Rightarrow> (Inl (RenameFailed src dest), c1\<lparr>disk := f'\<rparr>)
                | (True, f') \<Rightarrow>
                    let c2 = c1\<lparr>disk := f'\<rparr> in
                    (case pkgi_load (dest @ ''/sce_sys/param.sfo'') f' of
                       Inl e \<Rightarrow> (Inl e, c2)
                     | Inr content \<Rightarrow>
                         let version = sfo content ''APP_VER'' in
                         if version = [] then (Inl NoVersion, c2)
                         else if length version \<noteq> 5 then (Inl (BadVersionSize (length version)), c2)
                         else
                           (case update_app_version version titleid (app_database c2) of
                              Inl e \<Rightarrow> (Inl e, c2)
                            | Inr db \<Rightarrow> (Inr (), c2\<lparr>app_database := db\<rparr>)))))"


section \<open>The version of an installed game\<close>

lemma pkgi_get_game_version_cases:
  "pkgi_get_game_version sfo titleid f =
     (if pkgi_file_exists (''ux0:patch/'' @ titleid) f
      then pkgi_extract_package_version sfo (''ux0:patch/'' @ titleid) f
      else if pkgi_file_exists (''ux0:app/'' @ titleid) f
      then pkgi_extract_package_version sfo (''ux0:app/'' @ titleid) f
      else Inr [])"
  by (simp add: pkgi_get_game_version_def Let_def)

text \<open>
  C10. For every title id: when the directory \<^verbatim>\<open>ux0:patch/<titleid>\<close> exists, the result is the
  \<^verbatim>\<open>APP_VER\<close> string of its \<^verbatim>\<open>sce_sys/param.sfo\<close>, whether or not \<^verbatim>\<open>ux0:app/<titleid>\<close>
  exists too; when only \<^verbatim>\<open>ux0:app/<titleid>\<close> exists, it is the \<^verbatim>\<open>APP_VER\<close> string of that
  directory's \<^verbatim>\<open>param.sfo\<close>; when neither exists, it is the empty string. (A \<^verbatim>\<open>param.sfo\<close>
  that cannot be loaded makes \<^verbatim>\<open>pkgi_load\<close> throw; the exception is passed on.)
\<close>

theorem game_version_patch_first:
  "(pkgi_file_exists (''ux0:patch/'' @ titleid) f \<longrightarrow>
      (\<forall>content. pkgi_load (''ux0:patch/'' @ titleid @ ''/sce_sys/param.sfo'') f = Inr content \<longrightarrow>
         pkgi_get_game_version sfo titleid f = Inr (sfo content ''APP_VER''))
    \<and> (\<forall>e. pkgi_load (''ux0:patch/'' @ titleid @ ''/sce_sys/param.sfo'') f = Inl e \<longrightarrow>
         pkgi_get_game_version sfo titleid f = Inl e))
   \<and> (\<not> pkgi_file_exists (''ux0:patch/'' @ titleid) f \<and> pkgi_file_exists (''ux0:app/'' @ titleid) f \<longrightarrow>
      (\<forall>content. pkgi_load (''ux0:app/'' @ titleid @ ''/sce_sys/param.sfo'') f = Inr content \<longrightarrow>
         pkgi_get_game_version sfo titleid f = Inr (sfo content ''APP_VER''))
    \<and> (\<forall>e. pkgi_load (''ux0:app/'' @ titleid @ ''/sce_sys/param.sfo'') f = Inl e \<longrightarrow>
         pkgi_get_game_version sfo titleid f = Inl e))
   \<and> (\<not> pkgi_file_exists (''ux0:patch/'' @ titleid) f \<and> \<not> pkgi_file_exists (''ux0:app/'' @ titleid) f \<longrightarrow>
      pkgi_get_game_version sfo titleid f = Inr [])"
  by (simp add: pkgi_get_game_version_cases pkgi_extract_package_version_def)

text \<open>
  A disk where the game \<^verbatim>\<open>PCSA00001\<close> is installed at version 01.00 and patched to 01.02,
  and a reader of \<^verbatim>\<open>param.sfo\<close> files that takes the bytes after the key.
\<close>

definition bytes_of :: "string \<Rightarrow> u8 list" where
  "bytes_of txt = map (\<lambda>c. of_nat (of_char c)) txt"

definition demo_sfo :: "u8 list \<Rightarrow> string \<Rightarrow> string" where
  "demo_sfo content key = c_string (drop (length key) content)"

definition patched_disk :: filesys where
  "patched_disk =
     \<lparr>files = [''ux0:app/PCSA00001/sce_sys/param.sfo'' \<mapsto> bytes_of ''APP_VER01.00'',
               ''ux0:patch/PCSA00001/sce_sys/param.sfo'' \<mapsto> bytes_of ''APP_VER01.02''],
      dirs = {''ux0:app/PCSA00001'', ''ux0:patch/PCSA00001''},
      refuses = (\<lambda>call path. False)\<rparr>"

lemma patched_disk_patch:
  "pkgi_load (''ux0:patch/'' @ ''PCSA00001'' @ ''/sce_sys/param.sfo'') patched_disk
     = Inr (bytes_of ''APP_VER01.02'')"
  by (simp add: pkgi_load_def patched_disk_def)

lemma demo_sfo_patch: "demo_sfo (bytes_of ''APP_VER01.02'') ''APP_VER'' = ''01.02''"
  by code_simp

theorem game_version_patch_first_witness:
  "pkgi_file_exists ''ux0:patch/PCSA00001'' patched_disk
   \<and> pkgi_file_exists ''ux0:app/PCSA00001'' patched_disk
   \<and> pkgi_get_game_version demo_sfo ''PCSA00001'' patched_disk = Inr ''01.02''"
proof -
  have e: "pkgi_file_exists (''ux0:patch/'' @ ''PCSA00001'') patched_disk"
    by (simp add: pkgi_file_exists_def patched_disk_def)
  have a: "pkgi_file_exists ''ux0:app/PCSA00001'' patched_disk"
    by (simp add: pkgi_file_exists_def patched_disk_def)
  from game_version_patch_first [of "''PCSA00001''" patched_disk demo_sfo] e patched_disk_patch
  have "pkgi_get_game_version demo_sfo ''PCSA00001'' patched_disk
          = Inr (demo_sfo (bytes_of ''APP_VER01.02'') ''APP_VER'')"
    by blast
  with e a show ?thesis by (simp add: demo_sfo_patch)
qed


section \<open>Installing a patch\<close>

lemma staged_not_in_patch:
  "\<not> inside (''ux0:patch/'' @ titleid) (''ux0:pkgj/'' @ rest)"
  by (simp add: inside_def)

lemma files_after_delete:
  "pkgi_delete_dir dir f = (True, f1) \<Longrightarrow>
     files f1 p = (if inside dir p then None else files f p)"
  by (auto simp: pkgi_delete_dir_def split: if_splits)

lemma files_after_rename:
  "sceIoRename src dest f = (True, f2) \<Longrightarrow>
     files f2 p = (if inside dest p then files f (moved src dest p)
                   else if inside src p then None else files f p)"
  by (auto simp: sceIoRename_def split: if_splits)

lemma files_after_mkdirs: "files (snd (pkgi_mkdirs path f)) = files f"
  by (simp add: pkgi_mkdirs_def)

lemma inside_continued: "inside dir (dir @ ''/'' @ rest)"
  by (simp add: inside_def)

lemma moved_continued: "moved src dest (dest @ rest) = src @ rest"
  by (simp add: moved_def)

text \<open>
  C9. \<^verbatim>\<open>pkgi_install_update\<close>, for a content id of at least 7 characters whose title id is
  its characters 7 to 15: once the old \<^verbatim>\<open>ux0:patch/<titleid>\<close> is deleted (nothing is left
  inside it), the staged \<^verbatim>\<open>ux0:pkgj/<contentid>\<close> is renamed to it (every file of the staged
  directory is found under the destination) and \<^verbatim>\<open>APP_VER\<close> is read from the
  \<^verbatim>\<open>sce_sys/param.sfo\<close> there, a version whose length is not 5 ends in an error with the
  database as it was; a version of length 5 is written to the rows of \<^verbatim>\<open>tbl_appinfo\<close> with
  that title id and key 3168212510, and to no other row, unless the database fails.
\<close>

theorem install_update_steps:
  assumes "7 \<le> length contentid"
    and "pkgi_delete_dir (''ux0:patch/'' @ take 9 (drop 7 contentid))
           (snd (pkgi_mkdirs ''ux0:patch'' (disk c))) = (True, f1)"
    and "sceIoRename (''ux0:pkgj/'' @ contentid) (''ux0:patch/'' @ take 9 (drop 7 contentid)) f1
           = (True, f2)"
    and "pkgi_load (''ux0:patch/'' @ take 9 (drop 7 contentid) @ ''/sce_sys/param.sfo'') f2
           = Inr content"
  shows "(\<forall>p. inside (''ux0:patch/'' @ take 9 (drop 7 contentid)) p \<longrightarrow> files f1 p = None)
       \<and> (\<forall>rest. files f2 (''ux0:patch/'' @ take 9 (drop 7 contentid) @ ''/'' @ rest)
                   = files (disk c) (''ux0:pkgj/'' @ contentid @ ''/'' @ rest))
       \<and> (length (sfo content ''APP_VER'') \<noteq> 5 \<longrightarrow>
            (\<exists>e. pkgi_install_update sfo contentid c = (Inl e, c\<lparr>disk := f2\<rparr>)))
       \<and> (length (sfo content ''APP_VER'') = 5 \<longrightarrow>
            pkgi_install_update sfo contentid c =
              (if db_refuses (app_database c) DbOpen then (Inl DbOpenFailed, c\<lparr>disk := f2\<rparr>)
               else if db_refuses (app_database c) DbPrepare then (Inl DbPrepareFailed, c\<lparr>disk := f2\<rparr>)
               else if db_refuses (app_database c) DbStep then (Inl DbStepFailed, c\<lparr>disk := f2\<rparr>)
               else (Inr (),
                     c\<lparr>disk := f2,
                       app_database := (app_database c)
                         \<lparr>tbl_appinfo :=
                            map (\<lambda>(t, k, v).
                                   if t = take 9 (drop 7 contentid) \<and> k = 3168212510
                                   then (t, k, sfo content ''APP_VER'') else (t, k, v))
                                (tbl_appinfo (app_database c))\<rparr>\<rparr>)))"
proof (intro conjI allI impI)
  fix p
  assume "inside (''ux0:patch/'' @ take 9 (drop 7 contentid)) p"
  then show "files f1 p = None"
    using files_after_delete [OF assms(2)] by simp
next
  fix rest
  have "files f2 (''ux0:patch/'' @ take 9 (drop 7 contentid) @ ''/'' @ rest)
          = files f1 (''ux0:pkgj/'' @ contentid @ ''/'' @ rest)"
    using files_after_rename [OF assms(3),
        of "(''ux0:patch/'' @ take 9 (drop 7 contentid)) @ ''/'' @ rest"]
      inside_continued [of "''ux0:patch/'' @ take 9 (drop 7 contentid)" rest]
    by (simp add: moved_def)
  also have "\<dots> = files (disk c) (''ux0:pkgj/'' @ contentid @ ''/'' @ rest)"
    using files_after_delete [OF assms(2), of "''ux0:pkgj/'' @ contentid @ ''/'' @ rest"]
      staged_not_in_patch [of "take 9 (drop 7 contentid)" "contentid @ ''/'' @ rest"]
    by (simp add: files_after_mkdirs)
  finally show "files f2 (''ux0:patch/'' @ take 9 (drop 7 contentid) @ ''/'' @ rest)
          = files (disk c) (''ux0:pkgj/'' @ contentid @ ''/'' @ rest)" .
next
  assume "length (sfo content ''APP_VER'') \<noteq> 5"
  then show "\<exists>e. pkgi_install_update sfo contentid c = (Inl e, c\<lparr>disk := f2\<rparr>)"
    using assms by (simp add: pkgi_install_update_def Let_def)
next
  assume "length (sfo content ''APP_VER'') = 5"
  moreover from this have "sfo content ''APP_VER'' \<noteq> []" by auto
  moreover have "update_val (sfo content ''APP_VER'') (take 9 (drop 7 contentid))
      = (\<lambda>(t, k, v). if t = take 9 (drop 7 contentid) \<and> k = 3168212510
                       then (t, k, sfo content ''APP_VER'') else (t, k, v))"
    by (rule ext) (simp add: update_val_def)
  ultimately show "pkgi_install_update sfo contentid c =
              (if db_refuses (app_database c) DbOpen then (Inl DbOpenFailed, c\<lparr>disk := f2\<rparr>)
               else if db_refuses (app_database c) DbPrepare then (Inl DbPrepareFailed, c\<lparr>disk := f2\<rparr>)
               else if db_refuses (app_database c) DbStep then (Inl DbStepFailed, c\<lparr>disk := f2\<rparr>)
               else (Inr (),
                     c\<lparr>disk := f2,
                       app_database := (app_database c)
                         \<lparr>tbl_appinfo :=
                            map (\<lambda>(t, k, v).
                                   if t = take 9 (drop 7 contentid) \<and> k = 3168212510
                                   then (t, k, sfo content ''APP_VER'') else (t, k, v))
                                (tbl_appinfo (app_database c))\<rparr>\<rparr>))"
    using assms by (simp add: pkgi_install_update_def update_app_version_def Let_def)
qed


text \<open>
  A console where the patch 01.05 of \<^verbatim>\<open>PCSA00001\<close> is staged, an older patch is installed,
  and the shell knows version 01.00 of two titles.
\<close>

definition staged_console :: console where
  "staged_console =
     \<lparr>disk =
        \<lparr>files = [''ux0:pkgj/EP0000-PCSA00001_00-0000000000000000/sce_sys/param.sfo''
                     \<mapsto> bytes_of ''APP_VER01.05'',
                  ''ux0:patch/PCSA00001/old.bin'' \<mapsto> [1, 2, 3]],
         dirs = {''ux0:pkgj/EP0000-PCSA00001_00-0000000000000000'', ''ux0:patch/PCSA00001''},
         refuses = (\<lambda>call path. False)\<rparr>,
      app_database =
        \<lparr>tbl_appinfo = [(''PCSA00001'', 3168212510, ''01.00''), (''PCSA00001'', 7, ''01.00''),
                        (''PCSA00002'', 3168212510, ''01.00'')],
         db_refuses = (\<lambda>call. False)\<rparr>\<rparr>"

lemma demo_sfo_staged: "demo_sfo (bytes_of ''APP_VER01.05'') ''APP_VER'' = ''01.05''"
  by code_simp

theorem install_update_steps_witness:
  "fst (pkgi_install_update demo_sfo ''EP0000-PCSA00001_00-0000000000000000'' staged_console)
     = Inr ()
   \<and> tbl_appinfo (app_database (snd
        (pkgi_install_update demo_sfo ''EP0000-PCSA00001_00-0000000000000000'' staged_console)))
     = [(''PCSA00001'', 3168212510, ''01.05''), (''PCSA00001'', 7, ''01.00''),
        (''PCSA00002'', 3168212510, ''01.00'')]
   \<and> files (disk (snd
        (pkgi_install_update demo_sfo ''EP0000-PCSA00001_00-0000000000000000'' staged_console)))
        ''ux0:patch/PCSA00001/sce_sys/param.sfo'' = Some (bytes_of ''APP_VER01.05'')
   \<and> files (disk (snd
        (pkgi_install_update demo_sfo ''EP0000-PCSA00001_00-0000000000000000'' staged_console)))
        ''ux0:patch/PCSA00001/old.bin'' = None"
proof -
  let ?cid = "''EP0000-PCSA00001_00-0000000000000000''"
  let ?f0 = "snd (pkgi_mkdirs ''ux0:patch'' (disk staged_console))"
  let ?f1 = "snd (pkgi_delete_dir (''ux0:patch/'' @ take 9 (drop 7 ?cid)) ?f0)"
  let ?f2 = "snd (sceIoRename (''ux0:pkgj/'' @ ?cid) (''ux0:patch/'' @ take 9 (drop 7 ?cid)) ?f1)"
  have len: "7 \<le> length ?cid" by simp
  have del: "pkgi_delete_dir (''ux0:patch/'' @ take 9 (drop 7 ?cid)) ?f0 = (True, ?f1)"
    by (simp add: pkgi_delete_dir_def pkgi_mkdirs_def staged_console_def)
  have ren: "sceIoRename (''ux0:pkgj/'' @ ?cid) (''ux0:patch/'' @ take 9 (drop 7 ?cid)) ?f1
               = (True, ?f2)"
    by (simp add: sceIoRename_def pkgi_file_exists_def pkgi_delete_dir_def pkgi_mkdirs_def
        staged_console_def inside_def)
  have load: "pkgi_load (''ux0:patch/'' @ take 9 (drop 7 ?cid) @ ''/sce_sys/param.sfo'') ?f2
                = Inr (bytes_of ''APP_VER01.05'')"
    by (simp add: pkgi_load_def sceIoRename_def pkgi_file_exists_def pkgi_delete_dir_def
        pkgi_mkdirs_def staged_console_def inside_def moved_def)
  have old: "files ?f2 ''ux0:patch/PCSA00001/old.bin'' = None"
    by (simp add: sceIoRename_def pkgi_file_exists_def pkgi_delete_dir_def
        pkgi_mkdirs_def staged_console_def inside_def moved_def)
  have new: "files ?f2 ''ux0:patch/PCSA00001/sce_sys/param.sfo'' = Some (bytes_of ''APP_VER01.05'')"
    using load by (simp add: pkgi_load_def split: if_splits option.splits)
  from install_update_steps [OF len del ren load, of demo_sfo]
  have "pkgi_install_update demo_sfo ?cid staged_console =
          (Inr (),
           staged_console\<lparr>disk := ?f2,
             app_database := (app_database staged_console)
               \<lparr>tbl_appinfo := [(''PCSA00001'', 3168212510, ''01.05''), (''PCSA00001'', 7, ''01.00''),
                                (''PCSA00002'', 3168212510, ''01.00'')]\<rparr>\<rparr>)"
    by (simp add: demo_sfo_staged staged_console_def)
  then show ?thesis using old new by simp
qed

section \<open>A package to run the pipeline on\<close>

text \<open>
  The package of scenario S1 of the spec: content type 21, key type 2, one file \<^verbatim>\<open>x.bin\<close> of
  17 bytes in 32 encrypted bytes, and a tail of 4 bytes. The header is 256 bytes long, the meta
  table (one record, the content type) lies at 256, the encrypted region at 288 holds the index
  (32 bytes), the file name (16 bytes) and the file (32 bytes); the tail starts at 368 and the
  package is 372 bytes long.
\<close>

definition demo_header :: "u8 list" where
  "demo_header =
     [0x7f, 0x50, 0x4b, 0x47] @ replicate 4 0 @ [0, 0, 1, 0] @ [0, 0, 0, 1] @ replicate 4 0
     @ [0, 0, 0, 1] @ [0, 0, 0, 0, 0, 0, 1, 0x74] @ [0, 0, 0, 0, 0, 0, 1, 0x20]
     @ [0, 0, 0, 0, 0, 0, 0, 0x50] @ replicate 48 0x41 @ replicate 16 0 @ replicate 16 0
     @ replicate 64 0 @ [0x7f, 0x65, 0x78, 0x74] @ replicate 35 0 @ [2] @ replicate 24 0"

definition demo_body :: "u8 list" where
  "demo_body =
     [0, 0, 0, 2, 0, 0, 0, 4, 0, 0, 0, 21] @ replicate 20 0
     @ [0, 0, 0, 32, 0, 0, 0, 5, 0, 0, 0, 0, 0, 0, 0, 48, 0, 0, 0, 0, 0, 0, 0, 17,
        0, 0, 0, 0, 0, 0, 0, 0]
     @ [0x78, 0x2e, 0x62, 0x69, 0x6e] @ replicate 11 0
     @ [1, 2, 3, 4, 5, 6, 7, 8, 9, 10, 11, 12, 13, 14, 15, 16, 17] @ replicate 15 0xee
     @ [0xde, 0xad, 0xbe, 0xef]"

definition demo_pkg :: "u8 list" where
  "demo_pkg = demo_header @ demo_body"

text \<open>
  A cipher whose blocks are all zero, so that the counter mode leaves the bytes as they are; a
  cipher that adds the key to the block; a hash that adds up the bytes.
\<close>

definition null_cipher :: cipher where
  "null_cipher key block = replicate 16 0"

definition xor_cipher :: cipher where
  "xor_cipher key block = map (\<lambda>(k, b). k XOR b) (zip key block)"

definition sum_hash :: "u8 list \<Rightarrow> u8 list" where
  "sum_hash bs = replicate 31 0 @ [foldl (+) 0 bs]"

definition empty_disk :: filesys where
  "empty_disk = \<lparr>files = Map.empty, dirs = {}, refuses = (\<lambda>call path. False)\<rparr>"

definition demo_server :: http_state where
  "demo_server = \<lparr>started = False, resource = demo_pkg, length_known = True, requests = [],
                   pending = [], served = [], schedule = [Deliver 100]\<rparr>"

definition blank :: download where
  "blank = \<lparr>root = [], download_content = [], download_url = [], download_offset = 0,
            download_size = 0, iv = [], aes = [], sha = sha256_init, item_file = None,
            item_name = [], item_path = [], item_index = 0, head = replicate 512 0,
            head_size = 0, down_size = 20, meta_offset = 0, meta_count = 0, index_count = 0,
            total_size = 0, enc_offset = 0, enc_size = 0, index_size = 0, content_type = 0,
            encrypted_base = 0, encrypted_offset = 0, decrypted_size = 0,
            http = demo_server, fs = empty_disk, cancel_polls = []\<rparr>"

lemma replicate_numeral_unfold: "replicate (numeral k) x = x # replicate (pred_numeral k) x"
  by (simp add: numeral_eq_Suc)

section \<open>The key ladder\<close>

lemma and_7_cases:
  "(x :: u8) AND 7 = 0 \<or> x AND 7 = 1 \<or> x AND 7 = 2 \<or> x AND 7 = 3
   \<or> x AND 7 = 4 \<or> x AND 7 = 5 \<or> x AND 7 = 6 \<or> x AND 7 = 7"
proof -
  define masked where "masked = unat (x AND 7)"
  have "x AND 7 \<le> 7" by (rule word_and_le1)
  then have "masked \<le> 7" by (simp add: masked_def word_le_nat_alt)
  then consider "masked = 0" | "masked = 1" | "masked = 2" | "masked = 3"
    | "masked = 4" | "masked = 5" | "masked = 6" | "masked = 7"
    by arith
  moreover have "x AND 7 = of_nat masked" by (simp add: masked_def)
  ultimately show ?thesis by cases simp_all
qed

text \<open>
  The header checks and the ladder of lines 180 to 241, on the head buffer as
  \<^verbatim>\<open>download_head\<close> finds it after its first loop.
\<close>

lemma parse_header_key_ladder:
  assumes "get32be (head s) = 0x7f504b47"
    and "get32be (drop PKG_HEADER_SIZE (head s)) = 0x7F657874"
    and "rif = None \<or> (\<exists>r. rif = Some r \<and> pkgi_memequ (drop 0x10 r) (drop 0x30 (head s)) 0x30)"
    and "unat (get64be (drop 32 (head s))) \<le> length (head s)"
  shows "iv (snd (parse_header E rif s)) = take 16 (drop 0x70 (head s))
       \<and> (head s ! 0xe7 AND 7 = 1 \<longrightarrow>
            fst (parse_header E rif s) = Inr ()
            \<and> aes (snd (parse_header E rif s)) = pkg_psp_key)
       \<and> (head s ! 0xe7 AND 7 = 2 \<longrightarrow>
            fst (parse_header E rif s) = Inr ()
            \<and> aes (snd (parse_header E rif s)) = E pkg_vita_2 (take 16 (drop 0x70 (head s))))
       \<and> (head s ! 0xe7 AND 7 = 3 \<longrightarrow>
            fst (parse_header E rif s) = Inr ()
            \<and> aes (snd (parse_header E rif s)) = E pkg_vita_3 (take 16 (drop 0x70 (head s))))
       \<and> (head s ! 0xe7 AND 7 = 4 \<longrightarrow>
            fst (parse_header E rif s) = Inr ()
            \<and> aes (snd (parse_header E rif s)) = E pkg_vita_4 (take 16 (drop 0x70 (head s))))
       \<and> (head s ! 0xe7 AND 7 = 0 \<or> head s ! 0xe7 AND 7 = 5
          \<or> head s ! 0xe7 AND 7 = 6 \<or> head s ! 0xe7 AND 7 = 7 \<longrightarrow>
            fst (parse_header E rif s) = Inl (InvalidKeyType (uint (head s ! 0xe7 AND 7))))
       \<and> (head s ! 0xe7 AND 7 = 0 \<or> head s ! 0xe7 AND 7 = 1 \<or> head s ! 0xe7 AND 7 = 2
          \<or> head s ! 0xe7 AND 7 = 3 \<or> head s ! 0xe7 AND 7 = 4 \<or> head s ! 0xe7 AND 7 = 5
          \<or> head s ! 0xe7 AND 7 = 6 \<or> head s ! 0xe7 AND 7 = 7)"
proof -
  have checks: "\<not> (case rif of None \<Rightarrow> False
                   | Some r \<Rightarrow> \<not> pkgi_memequ (drop 0x10 r) (drop 0x30 (head s)) 0x30)"
    using assms(3) by auto
  have shape: "parse_header E rif s =
      (let s2 = s\<lparr>meta_offset := get32be (drop 8 (head s)),
                   meta_count := get32be (drop 12 (head s)),
                   index_count := get32be (drop 20 (head s)),
                   total_size := get64be (drop 24 (head s)),
                   enc_offset := get64be (drop 32 (head s)),
                   enc_size := get64be (drop 40 (head s)),
                   iv := take 16 (drop 0x70 (head s))\<rparr>
       in case package_key E (head s) (take 16 (drop 0x70 (head s))) of
            Inl e \<Rightarrow> (Inl e, s2)
          | Inr key \<Rightarrow> (Inr (), s2\<lparr>aes := key\<rparr>))"
    using assms(1,2,4) checks by (simp add: parse_header_def Let_def)
  have iv: "iv (snd (parse_header E rif s)) = take 16 (drop 0x70 (head s))"
    by (simp add: shape Let_def split: sum.splits)
  have k1: "head s ! 0xe7 AND 7 = 1 \<Longrightarrow>
              package_key E (head s) (take 16 (drop 0x70 (head s))) = Inr pkg_psp_key"
    and k2: "head s ! 0xe7 AND 7 = 2 \<Longrightarrow>
              package_key E (head s) (take 16 (drop 0x70 (head s)))
                = Inr (E pkg_vita_2 (take 16 (drop 0x70 (head s))))"
    and k3: "head s ! 0xe7 AND 7 = 3 \<Longrightarrow>
              package_key E (head s) (take 16 (drop 0x70 (head s)))
                = Inr (E pkg_vita_3 (take 16 (drop 0x70 (head s))))"
    and k4: "head s ! 0xe7 AND 7 = 4 \<Longrightarrow>
              package_key E (head s) (take 16 (drop 0x70 (head s)))
                = Inr (E pkg_vita_4 (take 16 (drop 0x70 (head s))))"
    and k0: "head s ! 0xe7 AND 7 = 0 \<or> head s ! 0xe7 AND 7 = 5
          \<or> head s ! 0xe7 AND 7 = 6 \<or> head s ! 0xe7 AND 7 = 7 \<Longrightarrow>
              package_key E (head s) (take 16 (drop 0x70 (head s)))
                = Inl (InvalidKeyType (uint (head s ! 0xe7 AND 7)))"
    by (auto simp: package_key_def)
  show ?thesis
    using iv k1 k2 k3 k4 k0 and_7_cases [of "head s ! 0xe7"]
    by (auto simp: shape Let_def)
qed


section \<open>The integrity check\<close>

text \<open>
  C8. Without a digest \<^verbatim>\<open>check_integrity\<close> returns 1 and leaves the state, the hash context
  included, as it was. With a digest it finishes the hash; when the 32 bytes agree it returns 1
  and the files are as they were; when they differ it throws, and then \<^verbatim>\<open>head.bin\<close> of the
  staging directory is gone and every other file is as it was.
\<close>

theorem check_integrity_outcomes:
  "check_integrity H None s = (Inr 1, s)
   \<and> (\<forall>d. check_integrity H (Some d) s =
        (if take 32 d = take 32 (H (fed (sha s)))
         then (Inr 1, s\<lparr>sha := (sha s)\<lparr>finished := True\<rparr>\<rparr>)
         else (Inl IntegrityMismatch,
               s\<lparr>sha := (sha s)\<lparr>finished := True\<rparr>,
                 fs := (fs s)\<lparr>files := (files (fs s))
                         (snprintf256 (root s @ ''/sce_sys/package/head.bin'') := None)\<rparr>\<rparr>)))
   \<and> (\<forall>d p. p \<noteq> snprintf256 (root s @ ''/sce_sys/package/head.bin'') \<longrightarrow>
        files (fs (snd (check_integrity H (Some d) s))) p = files (fs s) p)
   \<and> (\<forall>d. take 32 d \<noteq> take 32 (H (fed (sha s))) \<longrightarrow>
        files (fs (snd (check_integrity H (Some d) s)))
          (snprintf256 (root s @ ''/sce_sys/package/head.bin'')) = None)"
  by (simp add: check_integrity_def sha256_finish_def pkgi_memequ_def pkgi_rm_def Let_def)

text \<open>
  Scenario S4: the staging directory holds \<^verbatim>\<open>head.bin\<close> and \<^verbatim>\<open>x.bin\<close>, the bytes 1, 2, 3
  were hashed (their sum is 6), and the digest asked for is all zero.
\<close>

definition downloaded :: download where
  "downloaded =
     blank\<lparr>root := ''ux0:pkgj/X'',
           sha := \<lparr>fed = [1, 2, 3], finished = False\<rparr>,
           fs := empty_disk\<lparr>files := [''ux0:pkgj/X/sce_sys/package/head.bin'' \<mapsto> [1, 2],
                                      ''ux0:pkgj/X/x.bin'' \<mapsto> [3]]\<rparr>\<rparr>"

theorem check_integrity_outcomes_witness:
  "fst (check_integrity sum_hash (Some (replicate 32 0)) downloaded) = Inl IntegrityMismatch
   \<and> files (fs (snd (check_integrity sum_hash (Some (replicate 32 0)) downloaded)))
        ''ux0:pkgj/X/sce_sys/package/head.bin'' = None
   \<and> files (fs (snd (check_integrity sum_hash (Some (replicate 32 0)) downloaded)))
        ''ux0:pkgj/X/x.bin'' = Some [3]
   \<and> fst (check_integrity sum_hash (Some (replicate 31 0 @ [6])) downloaded) = Inr 1
   \<and> check_integrity sum_hash None downloaded = (Inr 1, downloaded)"
proof -
  have p: "snprintf256 (root downloaded @ ''/sce_sys/package/head.bin'')
             = ''ux0:pkgj/X/sce_sys/package/head.bin''"
    by (simp add: downloaded_def snprintf256_def)
  have h: "take 32 (sum_hash (fed (sha downloaded))) = replicate 31 0 @ [6]"
    by (simp add: downloaded_def sum_hash_def)
  have n: "take 32 (replicate 32 0) \<noteq> replicate 31 0 @ [6 :: u8]"
    by (simp add: replicate_numeral_unfold)
  have x: "files (fs downloaded) ''ux0:pkgj/X/x.bin'' = Some [3]"
    by (simp add: downloaded_def empty_disk_def)
  from check_integrity_outcomes [of sum_hash downloaded] p h n x show ?thesis
    by simp
qed

section \<open>What the pipeline does to the stream\<close>

text \<open>
  Some properties relate the state before and after in terms of the stream alone: the HTTP
  reader, the bytes hashed so far, the offset and the URL. A relation of this kind that holds
  across every call of \<open>download_data\<close> holds across every loop and every phase.
\<close>

definition view :: "download \<Rightarrow> http_state \<times> u8 list \<times> u64 \<times> string" where
  "view s = (http s, fed (sha s), download_offset s, download_url s)"

definition stream_relation :: "(download \<Rightarrow> download \<Rightarrow> bool) \<Rightarrow> bool" where
  "stream_relation R \<longleftrightarrow>
     (\<forall>a b c. R a b \<longrightarrow> R b c \<longrightarrow> R a c)
   \<and> (\<forall>s s'. view s' = view s \<longrightarrow> R s s')
   \<and> (\<forall>E room sz enc save s. R s (snd (download_data E room sz enc save s)))"

lemma stream_trans: "stream_relation R \<Longrightarrow> R a b \<Longrightarrow> R b c \<Longrightarrow> R a c"
  unfolding stream_relation_def by blast

lemma stream_local: "stream_relation R \<Longrightarrow> view s' = view s \<Longrightarrow> R s s'"
  unfolding stream_relation_def by blast

lemma stream_refl: "stream_relation R \<Longrightarrow> R s s"
  by (rule stream_local) simp_all

lemma stream_step:
  "stream_relation R \<Longrightarrow> download_data E room sz enc save s = (q, s1) \<Longrightarrow> R s s1"
proof -
  assume "stream_relation R" and d: "download_data E room sz enc save s = (q, s1)"
  then have "R s (snd (download_data E room sz enc save s))"
    unfolding stream_relation_def by blast
  with d show "R s s1" by simp
qed

lemma fill_header_stream:
  assumes R: "stream_relation R"
  shows "R s (snd (fill_header E off s))"
proof (induction E off s rule: fill_header.induct)
  case (1 E off s)
  show ?case
  proof (cases "off = head_size s")
    case True
    then show ?thesis by (simp add: fill_header.simps stream_refl [OF R])
  next
    case False
    note cont = False
    obtain q s1 where
      d: "download_data E (length (head s) - unat off) (head_size s - off) 0 1 s = (q, s1)"
      by (cases "download_data E (length (head s) - unat off) (head_size s - off) 0 1 s")
    have a: "R s s1" using R d by (rule stream_step)
    show ?thesis
    proof (cases q)
      case (Inl e)
      with False d a show ?thesis by (simp add: fill_header.simps [of E off s])
    next
      case (Inr x)
      obtain sz buf where x: "x = (sz, buf)" by (cases x)
      show ?thesis
      proof (cases "sz \<le> 0")
        case True
        with False d a Inr x show ?thesis by (simp add: fill_header.simps [of E off s])
      next
        case pos: False
        let ?s2 = "s1\<lparr>head := store (head s1) (unat off) buf\<rparr>"
        have b: "R s1 ?s2" by (rule stream_local [OF R]) (simp add: view_def)
        have c: "R ?s2 (snd (fill_header E (off + of_int sz) ?s2))"
          by (rule "1.IH" [OF cont d [symmetric] Inr x [symmetric] pos])
        have eq: "snd (fill_header E off s) = snd (fill_header E (off + of_int sz) ?s2)"
          using False d Inr x pos by (simp add: fill_header.simps [of E off s])
        have "R s (snd (fill_header E (off + of_int sz) ?s2))"
          by (rule stream_trans [OF R a stream_trans [OF R b c]])
        then show ?thesis by (simp only: eq)
      qed
    qed
  qed
qed

lemma grow_head_stream:
  assumes R: "stream_relation R"
  shows "R s (snd (grow_head E target s))"
proof (induction E target s rule: grow_head.induct)
  case (1 E target s)
  show ?case
  proof (cases "head_size s = target")
    case True
    then show ?thesis by (simp add: grow_head.simps stream_refl [OF R])
  next
    case False
    note cont = False
    obtain q s1 where
      d: "download_data E (length (head s) - unat (head_size s)) (target - head_size s) 0 1 s = (q, s1)"
      by (cases "download_data E (length (head s) - unat (head_size s)) (target - head_size s) 0 1 s")
    have a: "R s s1" using R d by (rule stream_step)
    show ?thesis
    proof (cases q)
      case (Inl e)
      with False d a show ?thesis by (simp add: grow_head.simps [of E target s])
    next
      case (Inr x)
      obtain sz buf where x: "x = (sz, buf)" by (cases x)
      show ?thesis
      proof (cases "sz \<le> 0")
        case True
        with False d a Inr x show ?thesis by (simp add: grow_head.simps [of E target s])
      next
        case pos: False
        let ?s2 = "s1\<lparr>head := store (head s1) (unat (head_size s1)) buf, head_size := head_size s1 + of_int sz\<rparr>"
        have b: "R s1 ?s2" by (rule stream_local [OF R]) (simp add: view_def)
        have c: "R ?s2 (snd (grow_head E target ?s2))"
          by (rule "1.IH" [OF cont d [symmetric] Inr x [symmetric] pos])
        have eq: "snd (grow_head E target s) = snd (grow_head E target ?s2)"
          using False d Inr x pos by (simp add: grow_head.simps [of E target s])
        have "R s (snd (grow_head E target ?s2))"
          by (rule stream_trans [OF R a stream_trans [OF R b c]])
        then show ?thesis by (simp only: eq)
      qed
    qed
  qed
qed

lemma drain_item_stream:
  assumes R: "stream_relation R"
  shows "R s (snd (drain_item E n save s))"
proof (induction E n save s rule: drain_item.induct)
  case (1 E n save s)
  show ?case
  proof (cases "encrypted_offset s = n")
    case True
    then show ?thesis by (simp add: drain_item.simps stream_refl [OF R])
  next
    case False
    note cont = False
    define read :: u32 where
      "read = ucast (min64 (of_nat (down_size s)) (n - encrypted_offset s))"
    obtain q s1 where
      d: "download_data E (down_size s) read 1 save s = (q, s1)"
      by (cases "download_data E (down_size s) read 1 save s")
    have a: "R s s1" using R d by (rule stream_step)
    show ?thesis
    proof (cases q)
      case (Inl e)
      with False d a show ?thesis by (simp add: drain_item.simps [of E n save s] read_def)
    next
      case (Inr x)
      obtain sz buf where x: "x = (sz, buf)" by (cases x)
      show ?thesis
      proof (cases "sz \<le> 0")
        case True
        with False d a Inr x show ?thesis by (simp add: drain_item.simps [of E n save s] read_def)
      next
        case pos: False
        let ?s2 = "s1"
        have b: "R s1 ?s2" by (rule stream_local [OF R]) (simp add: view_def)
        have c: "R ?s2 (snd (drain_item E n save ?s2))"
          by (rule "1.IH" [OF cont read_def d [symmetric] Inr x [symmetric] pos])
        have eq: "snd (drain_item E n save s) = snd (drain_item E n save ?s2)"
          using False d Inr x pos by (simp add: drain_item.simps [of E n save s] read_def)
        have "R s (snd (drain_item E n save ?s2))"
          by (rule stream_trans [OF R a stream_trans [OF R b c]])
        then show ?thesis by (simp only: eq)
      qed
    qed
  qed
qed

lemma skip_to_tail_stream:
  assumes R: "stream_relation R"
  shows "R s (snd (skip_to_tail E tail_offset s))"
proof (induction E tail_offset s rule: skip_to_tail.induct)
  case (1 E tail_offset s)
  show ?case
  proof (cases "\<not> download_offset s < tail_offset")
    case True
    then show ?thesis by (simp add: skip_to_tail.simps stream_refl [OF R])
  next
    case False
    note cont = False [simplified]
    define read :: u32 where
      "read = ucast (min64 (of_nat (down_size s)) (tail_offset - download_offset s))"
    obtain q s1 where
      d: "download_data E (down_size s) read 0 0 s = (q, s1)"
      by (cases "download_data E (down_size s) read 0 0 s")
    have a: "R s s1" using R d by (rule stream_step)
    show ?thesis
    proof (cases q)
      case (Inl e)
      with False d a show ?thesis by (simp add: skip_to_tail.simps [of E tail_offset s] read_def)
    next
      case (Inr x)
      obtain sz buf where x: "x = (sz, buf)" by (cases x)
      show ?thesis
      proof (cases "sz \<le> 0")
        case True
        with False d a Inr x show ?thesis by (simp add: skip_to_tail.simps [of E tail_offset s] read_def)
      next
        case pos: False
        let ?s2 = "s1"
        have b: "R s1 ?s2" by (rule stream_local [OF R]) (simp add: view_def)
        have c: "R ?s2 (snd (skip_to_tail E tail_offset ?s2))"
          by (rule "1.IH" [OF cont read_def d [symmetric] Inr x [symmetric] pos])
        have eq: "snd (skip_to_tail E tail_offset s) = snd (skip_to_tail E tail_offset ?s2)"
          using False d Inr x pos by (simp add: skip_to_tail.simps [of E tail_offset s] read_def)
        have "R s (snd (skip_to_tail E tail_offset ?s2))"
          by (rule stream_trans [OF R a stream_trans [OF R b c]])
        then show ?thesis by (simp only: eq)
      qed
    qed
  qed
qed

lemma read_tail_stream:
  assumes R: "stream_relation R"
  shows "R s (snd (read_tail E s))"
proof (induction E s rule: read_tail.induct)
  case (1 E s)
  show ?case
  proof (cases "download_offset s = total_size s")
    case True
    then show ?thesis by (simp add: read_tail.simps stream_refl [OF R])
  next
    case False
    note cont = False
    define read :: u32 where
      "read = ucast (min64 (of_nat (down_size s)) (total_size s - download_offset s))"
    obtain q s1 where
      d: "download_data E (down_size s) read 0 (if content_type s \<noteq> 6 then 1 else 0) s = (q, s1)"
      by (cases "download_data E (down_size s) read 0 (if content_type s \<noteq> 6 then 1 else 0) s")
    have a: "R s s1" using R d by (rule stream_step)
    show ?thesis
    proof (cases q)
      case (Inl e)
      with False d a show ?thesis by (simp add: read_tail.simps [of E s] read_def)
    next
      case (Inr x)
      obtain sz buf where x: "x = (sz, buf)" by (cases x)
      show ?thesis
      proof (cases "sz \<le> 0")
        case True
        with False d a Inr x show ?thesis by (simp add: read_tail.simps [of E s] read_def)
      next
        case pos: False
        let ?s2 = "s1"
        have b: "R s1 ?s2" by (rule stream_local [OF R]) (simp add: view_def)
        have c: "R ?s2 (snd (read_tail E ?s2))"
          by (rule "1.IH" [OF cont read_def d [symmetric] Inr x [symmetric] pos])
        have eq: "snd (read_tail E s) = snd (read_tail E ?s2)"
          using False d Inr x pos by (simp add: read_tail.simps [of E s] read_def)
        have "R s (snd (read_tail E ?s2))"
          by (rule stream_trans [OF R a stream_trans [OF R b c]])
        then show ?thesis by (simp only: eq)
      qed
    qed
  qed
qed


lemma create_file_view: "view (snd (create_file s)) = view s"
  by (simp add: create_file_def pkgi_mkdirs_def pkgi_create_def view_def
      split: option.splits)

lemma parse_header_view: "view (snd (parse_header E rif s)) = view s"
  by (simp add: parse_header_def view_def Let_def split: sum.splits)

lemma meta_walk_view: "view (snd (meta_walk i offset s)) = view s"
proof (induction i offset s rule: meta_walk.induct)
  case (1 i offset s)
  show ?case
  proof (cases "i < meta_count s \<and> \<not> enc_offset s \<le> ucast (offset + 16)
                \<and> \<not> length (head s) < unat offset + 8")
    case False
    then show ?thesis by (auto simp: meta_walk.simps [of i offset s])
  next
    case True
    define type where "type = get32be (drop (unat offset) (head s))"
    define sz where "sz = get32be (drop (unat offset + 4) (head s))"
    show ?thesis
    proof (cases "type = 2")
      case two: True
      define s1 where "s1 = s\<lparr>content_type := get32be (drop (unat offset + 8) (head s))\<rparr>"
      show ?thesis
      proof (cases "length (head s) < unat offset + 12
                    \<or> (content_type s1 \<noteq> 21 \<and> content_type s1 \<noteq> 22 \<and> content_type s1 \<noteq> 6)")
        case True
        with \<open>i < meta_count s \<and> _\<close> two show ?thesis
          by (auto simp: meta_walk.simps [of i offset s] Let_def type_def s1_def view_def)
      next
        case False
        then have ok: "\<not> length (head s) < unat offset + 12"
          and ct: "\<not> (content_type s1 \<noteq> 21 \<and> content_type s1 \<noteq> 22 \<and> content_type s1 \<noteq> 6)"
          by auto
        have "view (snd (meta_walk (i + 1) (offset + 8 + sz) s1)) = view s1"
          using "1.IH"(1) [of type sz s1] True two ok ct
          by (simp add: type_def sz_def s1_def)
        moreover have "snd (meta_walk i offset s) = snd (meta_walk (i + 1) (offset + 8 + sz) s1)"
          using True two ok ct
          by (auto simp: meta_walk.simps [of i offset s] Let_def type_def sz_def s1_def)
        ultimately show ?thesis by (simp add: s1_def view_def)
      qed
    next
      case nottwo: False
      show ?thesis
      proof (cases "type = 13")
        case thirteen: True
        define s1 where "s1 = s\<lparr>index_size := get32be (drop (unat offset + 12) (head s))\<rparr>"
        show ?thesis
        proof (cases "length (head s) < unat offset + 16")
          case True
          with \<open>i < meta_count s \<and> _\<close> nottwo thirteen show ?thesis
            by (auto simp: meta_walk.simps [of i offset s] Let_def type_def)
        next
          case False
          have "view (snd (meta_walk (i + 1) (offset + 8 + sz) s1)) = view s1"
            using "1.IH"(2) [of type sz] True nottwo thirteen False
            by (simp add: type_def sz_def s1_def)
          moreover have "snd (meta_walk i offset s) = snd (meta_walk (i + 1) (offset + 8 + sz) s1)"
            using True nottwo thirteen False
            by (simp add: meta_walk.simps [of i offset s] Let_def type_def sz_def s1_def)
          ultimately show ?thesis by (simp add: s1_def view_def)
        qed
      next
        case False
        have "view (snd (meta_walk (i + 1) (offset + 8 + sz) s)) = view s"
          using "1.IH"(3) [of type sz] True nottwo False
          by (simp add: type_def sz_def)
        moreover have "snd (meta_walk i offset s) = snd (meta_walk (i + 1) (offset + 8 + sz) s)"
          using True nottwo False
          by (simp add: meta_walk.simps [of i offset s] Let_def type_def sz_def)
        ultimately show ?thesis by simp
      qed
    qed
  qed
qed


lemma stream_then_local:
  assumes "stream_relation R" and "R a b" and "view c = view b"
  shows "R a c"
  by (rule stream_trans [OF assms(1) assms(2) stream_local [OF assms(1) assms(3)]])

lemma stream_local_then:
  assumes "stream_relation R" and "view b = view a" and "R b c"
  shows "R a c"
  by (rule stream_trans [OF assms(1) stream_local [OF assms(1) assms(2)] assms(3)])

lemma head_index_stream:
  assumes R: "stream_relation R"
  shows "R s (snd (head_index E s))"
proof -
  obtain q s1 where g: "grow_head E (ucast (enc_offset s)) s = (q, s1)"
    by (cases "grow_head E (ucast (enc_offset s)) s")
  have a: "R s s1" using grow_head_stream [OF R, of s E "ucast (enc_offset s)"] g by simp
  show ?thesis
  proof (cases q)
    case (Inl e)
    then have "snd (head_index E s) = s1" using g by (simp add: head_index_def)
    with a show ?thesis by simp
  next
    case (Inr ran)
    show ?thesis
    proof (cases ran)
      case False
      then have "snd (head_index E s) = s1" using g Inr by (simp add: head_index_def)
      with a show ?thesis by simp
    next
      case True
      obtain q2 s2 where m: "meta_walk 0 (meta_offset s1) (s1\<lparr>index_size := 0\<rparr>) = (q2, s2)"
        by (cases "meta_walk 0 (meta_offset s1) (s1\<lparr>index_size := 0\<rparr>)")
      have "view s2 = view (s1\<lparr>index_size := 0\<rparr>)"
        using meta_walk_view [of 0 "meta_offset s1" "s1\<lparr>index_size := 0\<rparr>"] m by simp
      then have "view s2 = view s1" by (simp add: view_def)
      with a have b: "R s s2" by (rule stream_then_local [OF R])
      define target :: u32 where "target = ucast (enc_offset s2 + ucast (index_count s2 * 32))"
      have c: "R s (snd (grow_head E target s2))"
        by (rule stream_trans [OF R b grow_head_stream [OF R]])
      show ?thesis
      proof (cases q2)
        case (Inl e)
        then have "snd (head_index E s) = s2" using g Inr True m by (simp add: head_index_def)
        with b show ?thesis by simp
      next
        case walked: (Inr u)
        show ?thesis
        proof (cases "length (head s2) < unat target")
          case True
          then have "snd (head_index E s) = s2"
            using g Inr \<open>ran\<close> m walked by (simp add: head_index_def Let_def target_def)
          with b show ?thesis by simp
        next
          case False
          then have "snd (head_index E s) = snd (grow_head E target s2)"
            using g Inr \<open>ran\<close> m walked by (simp add: head_index_def Let_def target_def)
          with c show ?thesis by simp
        qed
      qed
    qed
  qed
qed

lemma head_names_stream:
  assumes R: "stream_relation R"
  shows "R s (snd (head_names E s))"
proof -
  define item_offset where "item_offset = get64be (drop 8
     (aes128_ctr E (aes s) (iv s) 0 (take 32 (drop (unat (enc_offset s)) (head s)))))"
  define target :: u32 where "target = ucast (enc_offset s + item_offset)"
  have "snd (head_names E s) = s \<or> snd (head_names E s) = snd (grow_head E target s)"
    by (auto simp: head_names_def Let_def target_def item_offset_def
        split: sum.splits bool.splits prod.splits)
  then show ?thesis
    using stream_refl [OF R, of s] grow_head_stream [OF R, of s E target] by auto
qed

lemma download_head_body_stream:
  assumes R: "stream_relation R"
  shows "R s (snd (download_head_body E rif s))"
proof -
  obtain q1 s1 where c: "create_file s = (q1, s1)" by (cases "create_file s")
  have a: "R s s1"
    using create_file_view [of s] c by (simp add: stream_local [OF R])
  let ?s1 = "s1\<lparr>head_size := of_nat (PKG_HEADER_SIZE + PKG_HEADER_EXT_SIZE)\<rparr>"
  obtain q2 s2 where f: "fill_header E 0 ?s1 = (q2, s2)" by (cases "fill_header E 0 ?s1")
  have "R ?s1 s2" using fill_header_stream [OF R, of ?s1 E 0] f by simp
  then have "R s1 s2" by (rule stream_local_then [OF R, rotated]) (simp add: view_def)
  with a have b: "R s s2" by (rule stream_trans [OF R])
  obtain q3 s3 where p: "parse_header E rif s2 = (q3, s3)" by (cases "parse_header E rif s2")
  have "view s3 = view s2" using parse_header_view [of E rif s2] p by simp
  with b have c3: "R s s3" by (rule stream_then_local [OF R])
  obtain q4 s4 where h: "head_index E s3 = (q4, s4)" by (cases "head_index E s3")
  have "R s3 s4" using head_index_stream [OF R, of s3 E] h by simp
  with c3 have d: "R s s4" by (rule stream_trans [OF R])
  have e: "R s (snd (head_names E s4))"
    by (rule stream_trans [OF R d head_names_stream [OF R]])
  have "snd (download_head_body E rif s) \<in> {s1, s2, s3, s4, snd (head_names E s4)}"
    using c f p h
    by (auto simp: download_head_body_def split: sum.splits bool.splits)
  with a b c3 d e show ?thesis by auto
qed

lemma download_head_stream:
  assumes R: "stream_relation R"
  shows "R s (snd (download_head E rif s))"
proof -
  let ?s0 = "s\<lparr>item_name := ''Preparing...'',
          item_path := snprintf256 (root s @ ''/sce_sys/package/head.bin'')\<rparr>"
  have "R ?s0 (snd (download_head_body E rif ?s0))" by (rule download_head_body_stream [OF R])
  then have "R s (snd (download_head_body E rif ?s0))"
    by (rule stream_local_then [OF R, rotated]) (simp add: view_def)
  then show ?thesis
    by (rule stream_then_local [OF R]) (simp add: download_head_def scope_exit_def view_def)
qed


lemma store_item_stream:
  assumes R: "stream_relation R"
  shows "R s (snd (store_item E type item_offset item_size encrypted_size s))"
proof (cases "type = 4 \<or> type = 18")
  case True
  then have "view (snd (store_item E type item_offset item_size encrypted_size s)) = view s"
    by (auto simp: store_item_def view_def)
  then show ?thesis by (rule stream_local [OF R])
next
  case False
  obtain q1 s1 where c: "create_file s = (q1, s1)" by (cases "create_file s")
  have a: "R s s1"
    using create_file_view [of s] c by (simp add: stream_local [OF R])
  obtain q2 s2 where d: "drain_item E encrypted_size 1 s1 = (q2, s2)"
    by (cases "drain_item E encrypted_size 1 s1")
  have "R s1 s2" using drain_item_stream [OF R, of s1 E encrypted_size 1] d by simp
  with a have b: "R s s2" by (rule stream_trans [OF R])
  have c2: "R s (s2\<lparr>item_file := None\<rparr>)"
    by (rule stream_then_local [OF R b]) (simp add: view_def)
  have "snd (store_item E type item_offset item_size encrypted_size s)
          \<in> {s1, s2, s2\<lparr>item_file := None\<rparr>}"
    using False c d by (auto simp: store_item_def split: sum.splits bool.splits)
  with a b c2 show ?thesis by auto
qed

lemma place_item_stream:
  assumes R: "stream_relation R"
  shows "R s (snd (place_item E type item_offset item_size encrypted_size s))"
proof -
  have "snd (place_item E type item_offset item_size encrypted_size s)
          = snd (drain_item E encrypted_size 0 s)
        \<or> (\<exists>p. snd (place_item E type item_offset item_size encrypted_size s)
                 = snd (store_item E type item_offset item_size encrypted_size
                          (s\<lparr>item_path := p\<rparr>)))"
    by (auto simp: place_item_def)
  then show ?thesis
  proof
    assume "snd (place_item E type item_offset item_size encrypted_size s)
          = snd (drain_item E encrypted_size 0 s)"
    then show ?thesis using drain_item_stream [OF R, of s E encrypted_size 0] by simp
  next
    assume "\<exists>p. snd (place_item E type item_offset item_size encrypted_size s)
                 = snd (store_item E type item_offset item_size encrypted_size
                          (s\<lparr>item_path := p\<rparr>))"
    then obtain p where p: "snd (place_item E type item_offset item_size encrypted_size s)
                 = snd (store_item E type item_offset item_size encrypted_size
                          (s\<lparr>item_path := p\<rparr>))"
      by blast
    have "R (s\<lparr>item_path := p\<rparr>)
            (snd (store_item E type item_offset item_size encrypted_size (s\<lparr>item_path := p\<rparr>)))"
      by (rule store_item_stream [OF R])
    then have "R s (snd (store_item E type item_offset item_size encrypted_size
                           (s\<lparr>item_path := p\<rparr>)))"
      by (rule stream_local_then [OF R, rotated]) (simp add: view_def)
    with p show ?thesis by simp
  qed
qed

lemma process_entry_stream:
  assumes R: "stream_relation R"
  shows "R s (snd (process_entry E index s))"
proof -
  let ?s1 = "s\<lparr>item_name := c_string (name_bytes E (get32be (index_record E index s))
                                        (get32be (drop 4 (index_record E index s))) s),
            decrypted_size := get64be (drop 16 (index_record E index s)),
            encrypted_base := get64be (drop 8 (index_record E index s)),
            encrypted_offset := 0,
            item_index := sint index\<rparr>"
  let ?placed = "place_item E (index_record E index s ! 27)
         (get64be (drop 8 (index_record E index s)))
         (get64be (drop 16 (index_record E index s)))
         ((get64be (drop 16 (index_record E index s)) + 16 - 1) AND NOT (16 - 1)) ?s1"
  have "R ?s1 (snd ?placed)" by (rule place_item_stream [OF R])
  then have "R s (snd ?placed)"
    by (rule stream_local_then [OF R, rotated]) (simp add: view_def)
  moreover from process_entry_cases [of E index s]
  have "snd (process_entry E index s) = s \<or> snd (process_entry E index s) = snd ?placed"
    by auto
  ultimately show ?thesis using stream_refl [OF R, of s] by auto
qed

lemma download_files_loop_stream:
  assumes R: "stream_relation R"
  shows "R s (snd (download_files_loop E index s))"
proof (induction E index s rule: download_files_loop.induct)
  case (1 E index s)
  show ?case
  proof (cases "index < index_count s")
    case False
    then have "view (snd (download_files_loop E index s)) = view s"
      by (simp add: download_files_loop.simps [of E index s] view_def)
    then show ?thesis by (rule stream_local [OF R])
  next
    case True
    obtain q s1 where p: "process_entry E index s = (q, s1)" by (cases "process_entry E index s")
    have a: "R s s1" using process_entry_stream [OF R, of s E index] p by simp
    show ?thesis
    proof (cases "q = Inr True")
      case False
      then have "snd (download_files_loop E index s) = s1"
        using True p
        by (auto simp: download_files_loop.simps [of E index s] split: sum.splits bool.splits)
      with a show ?thesis by simp
    next
      case go: True
      have "R s1 (snd (download_files_loop E (index + 1) s1))"
        using "1.IH" [OF True p [symmetric]] go by simp
      with a have "R s (snd (download_files_loop E (index + 1) s1))" by (rule stream_trans [OF R])
      moreover have "snd (download_files_loop E index s) = snd (download_files_loop E (index + 1) s1)"
        using True p go by (simp add: download_files_loop.simps [of E index s])
      ultimately show ?thesis by simp
    qed
  qed
qed

lemma download_files_stream:
  assumes R: "stream_relation R"
  shows "R s (snd (download_files E s))"
  by (rule stream_then_local [OF R download_files_loop_stream [OF R, of s E 0]])
     (simp add: download_files_def scope_exit_def view_def)

lemma download_tail_body_stream:
  assumes R: "stream_relation R"
  shows "R s (snd (download_tail_body E s))"
proof -
  obtain q1 s1 where c: "create_file s = (q1, s1)" by (cases "create_file s")
  have a: "R s s1"
    using create_file_view [of s] c by (simp add: stream_local [OF R])
  obtain q2 s2 where k: "skip_to_tail E (enc_offset s1 + enc_size s1) s1 = (q2, s2)"
    by (cases "skip_to_tail E (enc_offset s1 + enc_size s1) s1")
  have "R s1 s2" using skip_to_tail_stream [OF R, of s1 E "enc_offset s1 + enc_size s1"] k by simp
  with a have b: "R s s2" by (rule stream_trans [OF R])
  have d: "R s (snd (read_tail E s2))" by (rule stream_trans [OF R b read_tail_stream [OF R]])
  have "snd (download_tail_body E s) \<in> {s1, s2, snd (read_tail E s2)}"
    using c k by (auto simp: download_tail_body_def split: sum.splits bool.splits prod.splits)
  with a b d show ?thesis by auto
qed

lemma download_tail_stream:
  assumes R: "stream_relation R"
  shows "R s (snd (download_tail E s))"
proof -
  let ?s0 = "s\<lparr>item_name := ''Finishing...'',
          item_path := snprintf256 (root s @ ''/sce_sys/package/tail.bin'')\<rparr>"
  have "R ?s0 (snd (download_tail_body E ?s0))" by (rule download_tail_body_stream [OF R])
  then have "R s (snd (download_tail_body E ?s0))"
    by (rule stream_local_then [OF R, rotated]) (simp add: view_def)
  then show ?thesis
    by (rule stream_then_local [OF R]) (simp add: download_tail_def scope_exit_def view_def)
qed

lemma check_integrity_view: "view (snd (check_integrity H digest s)) = view s"
  by (simp add: check_integrity_def sha256_finish_def view_def Let_def split: option.splits)

lemma create_stat_view: "view (snd (create_stat s)) = view s"
  by (simp add: create_stat_def pkgi_save_def view_def Let_def)

lemma create_rif_view: "view (snd (create_rif rif s)) = view s"
  by (simp add: create_rif_def pkgi_save_def view_def Let_def)


lemma run_phases_after_head:
  assumes R: "stream_relation R" and h: "download_head E rif s = (q1, s1)"
  shows "R s1 (snd (run_phases E H rif digest s))"
proof -
  obtain q2 s2 where f: "download_files E s1 = (q2, s2)" by (cases "download_files E s1")
  obtain q3 s3 where t: "download_tail E s2 = (q3, s3)" by (cases "download_tail E s2")
  obtain q4 s4 where c: "(if content_type s3 \<noteq> 6 then create_stat s3 else (Inr 1, s3)) = (q4, s4)"
    by (cases "if content_type s3 \<noteq> 6 then create_stat s3 else (Inr 1, s3)")
  obtain q5 s5 where i: "check_integrity H digest s4 = (q5, s5)"
    by (cases "check_integrity H digest s4")
  have 1: "R s1 s1" by (rule stream_refl [OF R])
  have 2: "R s1 s2" using download_files_stream [OF R, of s1 E] f by simp
  have "R s2 s3" using download_tail_stream [OF R, of s2 E] t by simp
  with 2 have 3: "R s1 s3" by (rule stream_trans [OF R])
  have "view s4 = view s3" using c create_stat_view [of s3] by (auto split: if_splits)
  with 3 have 4: "R s1 s4" by (rule stream_then_local [OF R])
  have "view s5 = view s4" using i check_integrity_view [of H digest s4] by simp
  with 4 have 5: "R s1 s5" by (rule stream_then_local [OF R])
  have 6: "R s1 (snd (create_rif r s5))" for r
    by (rule stream_then_local [OF R 5]) (rule create_rif_view)
  have "snd (run_phases E H rif digest s) \<in> {s1, s2, s3, s4, s5}
        \<or> (\<exists>r. snd (run_phases E H rif digest s) = snd (create_rif r s5))"
  proof (cases q1)
    case (Inl e)
    then show ?thesis using h by (simp add: run_phases_def)
  next
    case r1: (Inr r1)
    show ?thesis
    proof (cases "r1 = 0")
      case True
      then show ?thesis using h r1 by (simp add: run_phases_def)
    next
      case n1: False
      show ?thesis
      proof (cases q2)
        case (Inl e)
        then show ?thesis using h r1 n1 f by (simp add: run_phases_def)
      next
        case r2: (Inr r2)
        show ?thesis
        proof (cases "r2 = 0")
          case True
          then show ?thesis using h r1 n1 f r2 by (simp add: run_phases_def)
        next
          case n2: False
          show ?thesis
          proof (cases q3)
            case (Inl e)
            then show ?thesis using h r1 n1 f r2 n2 t by (simp add: run_phases_def)
          next
            case r3: (Inr r3)
            show ?thesis
            proof (cases "r3 = 0")
              case True
              then show ?thesis using h r1 n1 f r2 n2 t r3 by (simp add: run_phases_def)
            next
              case n3: False
              show ?thesis
              proof (cases q4)
                case (Inl e)
                then show ?thesis using h r1 n1 f r2 n2 t r3 n3 c by (simp add: run_phases_def)
              next
                case r4: (Inr r4)
                show ?thesis
                proof (cases q5)
                  case (Inl e)
                  then show ?thesis
                    using h r1 n1 f r2 n2 t r3 n3 c r4 i by (simp add: run_phases_def)
                next
                  case r5: (Inr r5)
                  show ?thesis
                  proof (cases rif)
                    case None
                    then show ?thesis
                      using h r1 n1 f r2 n2 t r3 n3 c r4 i r5 by (simp add: run_phases_def)
                  next
                    case (Some r)
                    then have "snd (run_phases E H rif digest s) = snd (create_rif r s5)"
                      using h r1 n1 f r2 n2 t r3 n3 c r4 i r5
                      by (simp add: run_phases_def split: prod.splits sum.splits)
                    then show ?thesis by blast
                  qed
                qed
              qed
            qed
          qed
        qed
      qed
    qed
  qed
  with 1 2 3 4 5 6 show ?thesis by auto
qed

lemma run_phases_stream:
  assumes R: "stream_relation R"
  shows "R s (snd (run_phases E H rif digest s))"
proof -
  obtain q1 s1 where h: "download_head E rif s = (q1, s1)" by (cases "download_head E rif s")
  have "R s s1" using download_head_stream [OF R, of s E rif] h by simp
  then show ?thesis by (rule stream_trans [OF R _ run_phases_after_head [OF R h]])
qed

text \<open>The state in which \<^verbatim>\<open>pkgi_download\<close> starts its phases (lines 600 to 614).\<close>

definition session_start :: "string \<Rightarrow> string \<Rightarrow> download \<Rightarrow> download" where
  "session_start content url s =
     s\<lparr>root := snprintf256 (pkgi_get_temp_folder @ ''/'' @ content),
       sha := sha256_init,
       item_file := None,
       item_index := - 1,
       download_size := 0,
       download_offset := 0,
       download_content := content,
       download_url := url\<rparr>"

lemma pkgi_download_phases:
  "pkgi_download E H content url rif digest s
     = run_phases E H rif digest (session_start content url s)"
  by (simp add: pkgi_download_def session_start_def)

lemma pkgi_download_stream:
  assumes R: "stream_relation R"
  shows "R (session_start content url s) (snd (pkgi_download E H content url rif digest s))"
  unfolding pkgi_download_phases by (rule run_phases_stream [OF R])


section \<open>Every byte served is hashed\<close>

definition hashed_as_served :: "download \<Rightarrow> download \<Rightarrow> bool" where
  "hashed_as_served s s' \<longleftrightarrow>
     (\<exists>bs. served (http s') = served (http s) @ bs \<and> fed (sha s') = fed (sha s) @ bs)"

lemma http_deliver_served:
  "http_deliver n h = (rd, bytes, h') \<Longrightarrow> n \<le> length (pending h) \<Longrightarrow>
     served h' = served h @ bytes \<and> length bytes = nat rd \<and> (rd \<le> 0 \<longrightarrow> bytes = [])"
  by (auto simp: http_deliver_def)

lemma http_read_served:
  assumes "http_read sz h = (rd, bytes, h')"
  shows "served h' = served h @ bytes \<and> length bytes = nat rd \<and> (rd \<le> 0 \<longrightarrow> bytes = [])"
proof (cases "schedule h")
  case Nil
  with assms show ?thesis
    using http_deliver_served
      [of "min (min (unat sz) (length (pending h))) 2147483647" h rd bytes h']
    by (simp add: http_read_def Let_def)
next
  case (Cons ev rest)
  show ?thesis
  proof (cases ev)
    case (Fail code)
    with Cons assms show ?thesis by (auto simp: http_read_def Let_def)
  next
    case (Deliver k)
    with Cons assms show ?thesis
      using http_deliver_served
        [of "min k (min (min (unat sz) (length (pending h))) 2147483647)"
            "h\<lparr>schedule := rest\<rparr>" rd bytes h']
      by (simp add: http_read_def Let_def)
  qed
qed

lemma decrypt_step_frame:
  "decrypt_step E enc rd bytes s = (buf, s1) \<Longrightarrow>
     http s1 = http s \<and> sha s1 = sha s \<and> fs s1 = fs s \<and> item_file s1 = item_file s
     \<and> decrypted_size s1 = decrypted_size s \<and> download_offset s1 = download_offset s
     \<and> download_url s1 = download_url s"
  by (auto simp: decrypt_step_def split: if_splits)

lemma save_step_frame:
  "save_step enc rd buf s = (r, s1) \<Longrightarrow>
     http s1 = http s \<and> sha s1 = sha s \<and> download_offset s1 = download_offset s
     \<and> download_url s1 = download_url s \<and> encrypted_offset s1 = encrypted_offset s"
  by (cases "enc = 0")
     (auto simp: save_step_def Let_def split: prod.splits bool.splits)

lemma process_read_hashed:
  assumes "http_read sz (http s) = (rd, bytes, h)"
    and "process_read E enc save rd bytes (s\<lparr>http := h\<rparr>) = (r, s1)"
  shows "served (http s1) = served (http s) @ bytes \<and> fed (sha s1) = fed (sha s) @ bytes"
proof (cases "rd \<le> 0")
  case True
  with assms(2) have "s1 = s\<lparr>http := h\<rparr>" by (auto simp: process_read_def split: if_splits)
  with http_read_served [OF assms(1)] True show ?thesis by simp
next
  case False
  define s2 where "s2 = s\<lparr>http := h, download_offset := download_offset s + of_int rd,
                          sha := sha256_update (sha s) bytes\<rparr>"
  obtain buf s3 where d: "decrypt_step E enc rd bytes s2 = (buf, s3)"
    by (cases "decrypt_step E enc rd bytes s2")
  have "s1 = s3 \<or> (\<exists>r'. save_step enc rd buf s3 = (r', s1))"
    using assms(2) False d
    by (auto simp: process_read_def Let_def s2_def split: if_splits prod.splits sum.splits)
  then have "http s1 = http s3 \<and> sha s1 = sha s3"
    using save_step_frame by blast
  with decrypt_step_frame [OF d] have "http s1 = h \<and> sha s1 = sha256_update (sha s) bytes"
    by (simp add: s2_def)
  with http_read_served [OF assms(1)] show ?thesis by (simp add: sha256_update_def)
qed

lemma download_data_hashed:
  "download_data E room sz enc save s = (r, s') \<Longrightarrow> hashed_as_served s s'"
proof (erule download_data_rel [rotated -1])
  show "\<And>s. hashed_as_served s s" by (simp add: hashed_as_served_def)
  show "\<And>a b c. hashed_as_served a b \<Longrightarrow> hashed_as_served b c \<Longrightarrow> hashed_as_served a c"
    by (auto simp: hashed_as_served_def)
  show "\<And>s c s1. is_canceled s = (c, s1) \<Longrightarrow> hashed_as_served s s1"
    by (auto simp: is_canceled_def hashed_as_served_def split: list.splits)
  show "\<And>s u s1. open_stream s = (u, s1) \<Longrightarrow> hashed_as_served s s1"
    by (auto simp: open_stream_def hashed_as_served_def http_start_def Let_def split: if_splits)
  show "\<And>s rd bytes h r s1. http_read sz (http s) = (rd, bytes, h) \<Longrightarrow>
          process_read E enc save rd bytes (s\<lparr>http := h\<rparr>) = (r, s1) \<Longrightarrow> hashed_as_served s s1"
    unfolding hashed_as_served_def using process_read_hashed by blast
qed

lemma hashed_as_served_stream: "stream_relation hashed_as_served"
  unfolding stream_relation_def
proof (intro conjI allI impI)
  fix a b c
  assume "hashed_as_served a b" and "hashed_as_served b c"
  then show "hashed_as_served a c" by (auto simp: hashed_as_served_def)
next
  fix s s'
  assume "view s' = view s"
  then show "hashed_as_served s s'" by (simp add: view_def hashed_as_served_def)
next
  fix E room sz enc save s
  show "hashed_as_served s (snd (download_data E room sz enc save s))"
    by (rule download_data_hashed [of E room sz enc save s
          "fst (download_data E room sz enc save s)"]) simp
qed

text \<open>
  C1. Whatever the flags \<open>encrypted\<close> and \<open>save\<close> are, a call of \<open>download_data\<close> that returns
  \<open>n > 0\<close> has appended the \<open>n\<close> bytes the read returned, in their order, to what was hashed.
  So, however a run of \<^verbatim>\<open>pkgi_download\<close> ends, the bytes that were hashed are the bytes the
  HTTP source served during the run, and the SHA-256 that \<^verbatim>\<open>sha256_finish\<close> gives for the
  context is the SHA-256 of that byte stream.
\<close>

theorem sha_sees_every_byte:
  "(\<forall>n buf s'. download_data E room sz encrypted save s = (Inr (n, buf), s') \<longrightarrow> 0 < n \<longrightarrow>
      (\<exists>bytes. length bytes = nat n
         \<and> served (http s') = served (http s) @ bytes
         \<and> fed (sha s') = fed (sha s) @ bytes))
   \<and> served (http (snd (pkgi_download E H content url rif digest s)))
       = served (http s) @ fed (sha (snd (pkgi_download E H content url rif digest s)))
   \<and> fst (sha256_finish H (sha (snd (pkgi_download E H content url rif digest s))))
       = H (drop (length (served (http s)))
              (served (http (snd (pkgi_download E H content url rif digest s)))))"
proof (intro conjI allI impI)
  fix n buf s'
  assume run: "download_data E room sz encrypted save s = (Inr (n, buf), s')" and n: "0 < n"
  from download_data_read [OF run n] obtain sa sb bytes h sc sd where
    a: "is_canceled s = (False, sa)" and b: "open_stream sa = (Inr (), sb)"
    and c: "http_read sz (http sb) = (n, bytes, h)"
    and d: "sc = sb\<lparr>http := h, download_offset := download_offset sb + of_int n,
                    sha := sha256_update (sha sb) bytes\<rparr>"
    and e: "decrypt_step E encrypted n bytes sc = (buf, sd)"
    and f: "(if save \<noteq> 0 then save_step encrypted n buf sd = (Inr (), s') else s' = sd)"
    by blast
  have 1: "http sa = http s \<and> sha sa = sha s"
    using a by (auto simp: is_canceled_def split: list.splits)
  have 2: "served (http sb) = served (http sa) \<and> sha sb = sha sa"
    using b by (auto simp: open_stream_def http_start_def Let_def split: if_splits)
  have 3: "http s' = http sd \<and> sha s' = sha sd"
    using f save_step_frame by (auto split: if_splits)
  have 4: "http sd = h \<and> sha sd = sha256_update (sha sb) bytes"
    using decrypt_step_frame [OF e] d by simp
  from http_read_served [OF c] 1 2 3 4
  have "length bytes = nat n \<and> served (http s') = served (http s) @ bytes
        \<and> fed (sha s') = fed (sha s) @ bytes"
    by (simp add: sha256_update_def)
  then show "\<exists>bytes. length bytes = nat n
         \<and> served (http s') = served (http s) @ bytes
         \<and> fed (sha s') = fed (sha s) @ bytes"
    by blast
next
  from pkgi_download_stream [OF hashed_as_served_stream, of content url s E H rif digest]
  obtain bs where
    "served (http (snd (pkgi_download E H content url rif digest s)))
       = served (http (session_start content url s)) @ bs"
    and "fed (sha (snd (pkgi_download E H content url rif digest s)))
       = fed (sha (session_start content url s)) @ bs"
    unfolding hashed_as_served_def by blast
  then show eq: "served (http (snd (pkgi_download E H content url rif digest s)))
       = served (http s) @ fed (sha (snd (pkgi_download E H content url rif digest s)))"
    by (simp add: session_start_def sha256_init_def)
  show "fst (sha256_finish H (sha (snd (pkgi_download E H content url rif digest s))))
       = H (drop (length (served (http s)))
              (served (http (snd (pkgi_download E H content url rif digest s)))))"
    by (simp add: sha256_finish_def eq)
qed

section \<open>Small runs\<close>

text \<open>A server with eight bytes to deliver, five at a time at most, and a state with no buffers.\<close>

definition tiny_server :: http_state where
  "tiny_server = \<lparr>started = False, resource = [1, 2, 3, 4, 5, 6, 7, 8], length_known = True,
                   requests = [], pending = [], served = [], schedule = []\<rparr>"

definition tiny :: download where
  "tiny = blank\<lparr>head := [], down_size := 5, http := tiny_server\<rparr>"

lemmas run_cong =
  prod.case_cong_weak sum.case_cong_weak option.case_cong_weak bool.case_cong_weak
  list.case_cong_weak

lemmas read_defs =
  download_data_def is_canceled_def open_stream_def process_read_def decrypt_step_def
  save_step_def http_start_def http_get_length_def http_read_def http_deliver_def
  sha256_update_def sha256_init_def pkgi_write_def min64_def Let_def
  aes128_ctr_def keystream_byte_def null_cipher_def replicate_numeral_unfold

lemma tiny_read_result:
  "fst (download_data null_cipher 5 5 1 0 tiny) = Inr (5, [1, 2, 3, 4, 5])"
  by (simp add: read_defs tiny_def tiny_server_def blank_def cong: run_cong)

lemma tiny_read_served:
  "served (http (snd (download_data null_cipher 5 5 1 0 tiny))) = [1, 2, 3, 4, 5]"
  by (simp add: read_defs tiny_def tiny_server_def blank_def cong: run_cong)

theorem sha_sees_every_byte_witness:
  "fst (download_data null_cipher 5 5 1 0 tiny) = Inr (5, [1, 2, 3, 4, 5])
   \<and> served (http (snd (download_data null_cipher 5 5 1 0 tiny))) = [1, 2, 3, 4, 5]
   \<and> fed (sha (snd (download_data null_cipher 5 5 1 0 tiny))) = [1, 2, 3, 4, 5]"
proof -
  have run: "download_data null_cipher 5 5 1 0 tiny =
               (Inr (5, [1, 2, 3, 4, 5]), snd (download_data null_cipher 5 5 1 0 tiny))"
    by (rule prod_eqI) (simp_all add: tiny_read_result)
  have start: "served (http tiny) = [] \<and> fed (sha tiny) = []"
    by (simp add: tiny_def tiny_server_def blank_def sha256_init_def)
  from sha_sees_every_byte [of null_cipher 5 5 1 0 tiny, THEN conjunct1, rule_format, OF run]
  obtain bytes where
    "served (http (snd (download_data null_cipher 5 5 1 0 tiny))) = served (http tiny) @ bytes"
    and "fed (sha (snd (download_data null_cipher 5 5 1 0 tiny))) = fed (sha tiny) @ bytes"
    by auto
  with start tiny_read_served
  have "fed (sha (snd (download_data null_cipher 5 5 1 0 tiny))) = [1, 2, 3, 4, 5]"
    by simp
  with tiny_read_result tiny_read_served show ?thesis by simp
qed


lemmas pipeline_defs =
  read_defs sha256_finish_def pkgi_create_def pkgi_mkdirs_def pkgi_rm_def pkgi_save_def
  create_file_def parent_folder_def snprintf256_def
  fill_header.simps grow_head.simps meta_walk.simps drain_item.simps download_files_loop.simps
  skip_to_tail.simps read_tail.simps store_def package_key_def parse_header_def head_index_def
  head_names_def scope_exit_def download_head_body_def download_head_def store_item_def
  place_item_def process_entry_def download_files_def download_tail_body_def download_tail_def
  check_integrity_def create_stat_def create_rif_def pkgi_get_temp_folder_def run_phases_def
  pkgi_download_def get32be_def get64be_def be_word_def pkgi_memequ_def index_record_def
  name_bytes_def PKG_HEADER_SIZE_def PKG_HEADER_EXT_SIZE_def ancestors_def

lemma demo_name: "c_string [0x78, 0x2e, 0x62, 0x69, 0x6e] = ''x.bin''"
  by code_simp


text \<open>
  A package without files: the header (256 bytes, the key type in the byte at 0xE7), a meta
  table with the content type 21 (32 bytes, at 256), an empty encrypted region at 288 and a
  tail of two bytes; 290 bytes.
\<close>

definition keyed_pkg :: "u8 \<Rightarrow> u8 list" where
  "keyed_pkg key_type =
     [0x7f, 0x50, 0x4b, 0x47] @ replicate 4 0 @ [0, 0, 1, 0] @ [0, 0, 0, 1] @ replicate 8 0
     @ replicate 6 0 @ [1, 0x22] @ replicate 6 0 @ [1, 0x20]
     @ replicate 8 0 @ replicate 48 0x41 @ replicate 16 0 @ replicate 16 0
     @ replicate 64 0 @ [0x7f, 0x65, 0x78, 0x74] @ replicate 35 0 @ [key_type] @ replicate 24 0
     @ [0, 0, 0, 2, 0, 0, 0, 4, 0, 0, 0, 21] @ replicate 20 0
     @ [0xbe, 0xef]"

definition bare_pkg :: "u8 list" where
  "bare_pkg = keyed_pkg 2"

definition bare_server :: http_state where
  "bare_server = \<lparr>started = False, resource = bare_pkg, length_known = True, requests = [],
                   pending = [], served = [], schedule = [Deliver 200]\<rparr>"

definition resumed :: download where
  "resumed = blank\<lparr>head := replicate 320 0, download_offset := 40, http := bare_server\<rparr>"

section \<open>What one read gives\<close>

lemma is_canceled_frame:
  "is_canceled s = (c, s1) \<Longrightarrow>
     http s1 = http s \<and> sha s1 = sha s \<and> download_offset s1 = download_offset s
     \<and> aes s1 = aes s \<and> iv s1 = iv s \<and> encrypted_base s1 = encrypted_base s
     \<and> encrypted_offset s1 = encrypted_offset s \<and> fs s1 = fs s
     \<and> decrypted_size s1 = decrypted_size s \<and> item_file s1 = item_file s
     \<and> download_url s1 = download_url s"
  by (auto simp: is_canceled_def split: list.splits)

lemma open_stream_frame:
  "open_stream s = (u, s1) \<Longrightarrow>
     served (http s1) = served (http s) \<and> sha s1 = sha s
     \<and> download_offset s1 = download_offset s
     \<and> aes s1 = aes s \<and> iv s1 = iv s \<and> encrypted_base s1 = encrypted_base s
     \<and> encrypted_offset s1 = encrypted_offset s \<and> fs s1 = fs s
     \<and> decrypted_size s1 = decrypted_size s \<and> item_file s1 = item_file s
     \<and> download_url s1 = download_url s"
  by (auto simp: open_stream_def http_start_def Let_def split: if_splits)

lemma http_read_bound:
  "http_read sz h = (rd, bytes, h') \<Longrightarrow> nat rd \<le> unat sz"
  by (auto simp: http_read_def http_deliver_def Let_def split: list.splits http_event.splits)

lemma download_data_returns:
  assumes "download_data E room sz enc save s = (Inr (n, buf), s')" and "0 < n"
  shows "\<exists>bytes. length bytes = nat n \<and> nat n \<le> unat sz \<and> nat n \<le> room
           \<and> served (http s') = served (http s) @ bytes
           \<and> fed (sha s') = fed (sha s) @ bytes
           \<and> download_offset s' = download_offset s + of_int n
           \<and> buf = (if enc \<noteq> 0
                     then aes128_ctr E (aes s) (iv s)
                            (unat (encrypted_base s + encrypted_offset s)) bytes
                     else bytes)
           \<and> encrypted_offset s' = (if enc \<noteq> 0 then encrypted_offset s + of_int n
                                      else encrypted_offset s)
           \<and> (save = 0 \<longrightarrow> fs s' = fs s \<and> decrypted_size s' = decrypted_size s)"
proof -
  from download_data_read [OF assms] obtain sa sb bytes h sc sd where
    a: "is_canceled s = (False, sa)" and b: "open_stream sa = (Inr (), sb)"
    and c: "http_read sz (http sb) = (n, bytes, h)" and room: "nat n \<le> room"
    and d: "sc = sb\<lparr>http := h, download_offset := download_offset sb + of_int n,
                    sha := sha256_update (sha sb) bytes\<rparr>"
    and e: "decrypt_step E enc n bytes sc = (buf, sd)"
    and f: "(if save \<noteq> 0 then save_step enc n buf sd = (Inr (), s') else s' = sd)"
    by blast
  note a' = is_canceled_frame [OF a]
  note b' = open_stream_frame [OF b]
  note c' = http_read_served [OF c]
  have 1: "length bytes = nat n \<and> nat n \<le> unat sz"
    using c' http_read_bound [OF c] by simp
  have 2: "served (http sc) = served (http s) @ bytes \<and> fed (sha sc) = fed (sha s) @ bytes
           \<and> download_offset sc = download_offset s + of_int n
           \<and> aes sc = aes s \<and> iv sc = iv s \<and> encrypted_base sc = encrypted_base s
           \<and> encrypted_offset sc = encrypted_offset s \<and> fs sc = fs s
           \<and> decrypted_size sc = decrypted_size s"
    using a' b' c' by (simp add: d sha256_update_def)
  have 3: "buf = (if enc \<noteq> 0
                     then aes128_ctr E (aes s) (iv s)
                            (unat (encrypted_base s + encrypted_offset s)) bytes
                     else bytes)
           \<and> encrypted_offset sd = (if enc \<noteq> 0 then encrypted_offset s + of_int n
                                      else encrypted_offset s)"
    using e 2 by (auto simp: decrypt_step_def split: if_splits)
  note e' = decrypt_step_frame [OF e]
  have 4: "http s' = http sd \<and> sha s' = sha sd \<and> download_offset s' = download_offset sd
           \<and> encrypted_offset s' = encrypted_offset sd"
    using f save_step_frame [of enc n buf sd "Inr ()" s'] by (auto split: if_splits)
  have 5: "save = 0 \<longrightarrow> s' = sd" using f by simp
  from 1 2 3 4 5 e' room have "length bytes = nat n \<and> nat n \<le> unat sz \<and> nat n \<le> room
           \<and> served (http s') = served (http s) @ bytes
           \<and> fed (sha s') = fed (sha s) @ bytes
           \<and> download_offset s' = download_offset s + of_int n
           \<and> buf = (if enc \<noteq> 0
                     then aes128_ctr E (aes s) (iv s)
                            (unat (encrypted_base s + encrypted_offset s)) bytes
                     else bytes)
           \<and> encrypted_offset s' = (if enc \<noteq> 0 then encrypted_offset s + of_int n
                                      else encrypted_offset s)
           \<and> (save = 0 \<longrightarrow> fs s' = fs s \<and> decrypted_size s' = decrypted_size s)"
    by simp
  then show ?thesis by blast
qed


lemma unat_add_int:
  fixes w :: "'a::len word"
  assumes "0 < n" and "unat w + nat n < 2 ^ LENGTH('a)"
  shows "unat (w + of_int n) = unat w + nat n"
proof -
  have "(of_int n :: 'a word) = of_nat (nat n)" using assms(1) by simp
  moreover have k: "unat (of_nat (nat n) :: 'a word) = nat n"
  proof -
    from assms(2) have "nat n < 2 ^ LENGTH('a)" by linarith
    then show ?thesis by (simp add: unat_of_nat)
  qed
  moreover from k assms(2) have "unat w + unat (of_nat (nat n) :: 'a word) < 2 ^ LENGTH('a)"
    by simp
  ultimately show ?thesis by (simp only: unat_add_lem [THEN iffD1])
qed

text \<open>
  When the loop of lines 167 to 178 has run to its end, the head buffer holds, from
  \<open>head_offset\<close> up to \<open>head_size\<close>, the bytes that were served meanwhile.
\<close>

lemma fill_header_result:
  "\<lbrakk>fill_header E off s = (Inr True, s'); off \<le> head_size s\<rbrakk> \<Longrightarrow>
     \<exists>bs. served (http s') = served (http s) @ bs
        \<and> length bs = unat (head_size s) - unat off
        \<and> head s' = take (unat off) (head s) @ bs @ drop (unat (head_size s)) (head s)
        \<and> untouched (s\<lparr>head := head s'\<rparr>) s'"
proof (induction E off s rule: fill_header.induct)
  case (1 E off s)
  show ?case
  proof (cases "off = head_size s")
    case True
    with "1.prems"(1) have "s' = s" by (simp add: fill_header.simps)
    with True show ?thesis by (simp add: untouched_refl)
  next
    case False
    obtain q s1 where
      d: "download_data E (length (head s) - unat off) (head_size s - off) 0 1 s = (q, s1)"
      by (cases "download_data E (length (head s) - unat off) (head_size s - off) 0 1 s")
    from "1.prems"(1) False d obtain sz buf where q: "q = Inr (sz, buf)" and pos: "\<not> sz \<le> 0"
      and run: "fill_header E (off + of_int sz)
                  (s1\<lparr>head := store (head s1) (unat off) buf\<rparr>) = (Inr True, s')"
      by (cases q) (auto simp: fill_header.simps [of E off s] split: if_splits)
    let ?s2 = "s1\<lparr>head := store (head s1) (unat off) buf\<rparr>"
    have u: "untouched s s1" using d by (rule download_data_untouched)
    then have hd: "head s1 = head s" and hs: "head_size s1 = head_size s"
      by (simp_all add: untouched_def)
    from download_data_returns [OF d [unfolded q]] pos
    have len: "length buf = nat sz" and le: "nat sz \<le> unat (head_size s - off)"
      and room: "nat sz \<le> length (head s) - unat off"
      and srv: "served (http s1) = served (http s) @ buf"
      by auto
    have sub: "unat (head_size s - off) = unat (head_size s) - unat off"
      using "1.prems"(2) by (simp add: unat_sub)
    have lt: "unat off < unat (head_size s)"
      using "1.prems"(2) False by (simp add: word_le_nat_alt word_unat_eq_iff)
    have bound: "unat off + nat sz \<le> unat (head_size s)" using le sub lt by simp
    have "unat (head_size s) < 2 ^ 32" using unsigned_less [of "head_size s"] by simp
    with bound have "unat off + nat sz < 2 ^ LENGTH(32)" by simp
    with pos have next_off: "unat (off + of_int sz) = unat off + nat sz"
      by (simp add: unat_add_int)
    with bound have le2: "off + of_int sz \<le> head_size ?s2"
      by (simp add: word_le_nat_alt hs)
    from "1.IH" [OF False d [symmetric] q refl pos run le2] obtain bs where
      s2: "served (http s') = served (http ?s2) @ bs"
      and l2: "length bs = unat (head_size ?s2) - unat (off + of_int sz)"
      and h2: "head s' = take (unat (off + of_int sz)) (head ?s2) @ bs
                 @ drop (unat (head_size ?s2)) (head ?s2)"
      and u2: "untouched (?s2\<lparr>head := head s'\<rparr>) s'"
      by blast
    have inbuf: "unat off + nat sz \<le> length (head s)"
      using room pos by simp
    have a: "take (unat off + nat sz) (store (head s) (unat off) buf) = take (unat off) (head s) @ buf"
      using inbuf len by (simp add: store_def)
    have b: "drop (unat (head_size s)) (store (head s) (unat off) buf)
               = drop (unat (head_size s)) (head s)"
      using inbuf len bound by (simp add: store_def)
    have "served (http s') = served (http s) @ (buf @ bs)" using s2 srv by simp
    moreover have "length (buf @ bs) = unat (head_size s) - unat off"
      using l2 len next_off bound hs by simp
    moreover have "head s' = take (unat off) (head s) @ (buf @ bs)
                     @ drop (unat (head_size s)) (head s)"
      using h2 a b by (simp add: next_off hd hs)
    moreover have "untouched (s\<lparr>head := head s'\<rparr>) s'"
      using u u2 by (simp add: untouched_def)
    ultimately show ?thesis by blast
  qed
qed


section \<open>The key stays as the header gave it\<close>

definition same_key :: "download \<Rightarrow> download \<Rightarrow> bool" where
  "same_key s s' \<longleftrightarrow> aes s' = aes s \<and> iv s' = iv s"

lemma same_key_refl: "same_key s s"
  by (simp add: same_key_def)

lemma same_key_trans: "same_key a b \<Longrightarrow> same_key b c \<Longrightarrow> same_key a c"
  by (simp add: same_key_def)

lemma same_key_step: "download_data E room sz enc save s = (q, s1) \<Longrightarrow> same_key s s1"
  using download_data_untouched [of E room sz enc save s q s1]
  by (simp add: same_key_def untouched_def)

lemma grow_head_same_key: "same_key s (snd (grow_head E target s))"
proof (induction E target s rule: grow_head.induct)
  case (1 E target s)
  show ?case
  proof (cases "head_size s = target")
    case True
    then show ?thesis by (simp add: grow_head.simps same_key_refl)
  next
    case False
    note cont = False
    obtain q s1 where
      d: "download_data E (length (head s) - unat (head_size s)) (target - head_size s) 0 1 s = (q, s1)"
      by (cases "download_data E (length (head s) - unat (head_size s)) (target - head_size s) 0 1 s")
    have a: "same_key s s1" using d by (rule same_key_step)
    show ?thesis
    proof (cases q)
      case (Inl e)
      with False d a show ?thesis by (simp add: grow_head.simps [of E target s])
    next
      case (Inr x)
      obtain sz buf where x: "x = (sz, buf)" by (cases x)
      show ?thesis
      proof (cases "sz \<le> 0")
        case True
        with False d a Inr x show ?thesis by (simp add: grow_head.simps [of E target s])
      next
        case pos: False
        let ?s2 = "s1\<lparr>head := store (head s1) (unat (head_size s1)) buf, head_size := head_size s1 + of_int sz\<rparr>"
        have b: "same_key s1 ?s2" by (simp add: same_key_def)
        have c: "same_key ?s2 (snd (grow_head E target ?s2))"
          by (rule "1.IH" [OF cont d [symmetric] Inr x [symmetric] pos])
        have eq: "snd (grow_head E target s) = snd (grow_head E target ?s2)"
          using False d Inr x pos by (simp add: grow_head.simps [of E target s])
        have "same_key s (snd (grow_head E target ?s2))"
          by (rule same_key_trans [OF a same_key_trans [OF b c]])
        then show ?thesis by (simp only: eq)
      qed
    qed
  qed
qed

text \<open>The walk over the meta table changes the content type and the index size only.\<close>

lemma meta_walk_frame:
  "snd (meta_walk i offset s)
     = s\<lparr>content_type := content_type (snd (meta_walk i offset s)),
          index_size := index_size (snd (meta_walk i offset s))\<rparr>"
proof (induction i offset s rule: meta_walk.induct)
  case (1 i offset s)
  show ?case
  proof (cases "i < meta_count s \<and> \<not> enc_offset s \<le> ucast (offset + 16)
                \<and> \<not> length (head s) < unat offset + 8")
    case False
    then have "snd (meta_walk i offset s) = s"
      by (auto simp: meta_walk.simps [of i offset s])
    then show ?thesis by simp
  next
    case True
    define type where "type = get32be (drop (unat offset) (head s))"
    define sz where "sz = get32be (drop (unat offset + 4) (head s))"
    show ?thesis
    proof (cases "type = 2")
      case two: True
      define s1 where "s1 = s\<lparr>content_type := get32be (drop (unat offset + 8) (head s))\<rparr>"
      show ?thesis
      proof (cases "length (head s) < unat offset + 12
                    \<or> (content_type s1 \<noteq> 21 \<and> content_type s1 \<noteq> 22 \<and> content_type s1 \<noteq> 6)")
        case True
        with \<open>i < meta_count s \<and> _\<close> two
        have "snd (meta_walk i offset s) = s \<or> snd (meta_walk i offset s) = s1"
          by (auto simp: meta_walk.simps [of i offset s] Let_def type_def s1_def)
        then show ?thesis by (auto simp: s1_def)
      next
        case False
        then have ok: "\<not> length (head s) < unat offset + 12"
          and ct: "\<not> (content_type s1 \<noteq> 21 \<and> content_type s1 \<noteq> 22 \<and> content_type s1 \<noteq> 6)"
          by auto
        let ?r = "snd (meta_walk (i + 1) (offset + 8 + sz) s1)"
        have "?r = s1\<lparr>content_type := content_type ?r, index_size := index_size ?r\<rparr>"
          using "1.IH"(1) [of type sz s1] True two ok ct
          by (simp add: type_def sz_def s1_def)
        then have "?r = s\<lparr>content_type := content_type ?r, index_size := index_size ?r\<rparr>"
          by (simp add: s1_def)
        moreover have "snd (meta_walk i offset s) = ?r"
          using True two ok ct
          by (auto simp: meta_walk.simps [of i offset s] Let_def type_def sz_def s1_def)
        ultimately show ?thesis by simp
      qed
    next
      case nottwo: False
      show ?thesis
      proof (cases "type = 13")
        case thirteen: True
        define s1 where "s1 = s\<lparr>index_size := get32be (drop (unat offset + 12) (head s))\<rparr>"
        show ?thesis
        proof (cases "length (head s) < unat offset + 16")
          case True
          with \<open>i < meta_count s \<and> _\<close> nottwo thirteen
          have "snd (meta_walk i offset s) = s"
            by (auto simp: meta_walk.simps [of i offset s] Let_def type_def)
          then show ?thesis by simp
        next
          case False
          let ?r = "snd (meta_walk (i + 1) (offset + 8 + sz) s1)"
          have "?r = s1\<lparr>content_type := content_type ?r, index_size := index_size ?r\<rparr>"
            using "1.IH"(2) [of type sz] True nottwo thirteen False
            by (simp add: type_def sz_def s1_def)
          then have "?r = s\<lparr>content_type := content_type ?r, index_size := index_size ?r\<rparr>"
            by (simp add: s1_def)
          moreover have "snd (meta_walk i offset s) = ?r"
            using True nottwo thirteen False
            by (simp add: meta_walk.simps [of i offset s] Let_def type_def sz_def s1_def)
          ultimately show ?thesis by simp
        qed
      next
        case False
        let ?r = "snd (meta_walk (i + 1) (offset + 8 + sz) s)"
        have "?r = s\<lparr>content_type := content_type ?r, index_size := index_size ?r\<rparr>"
          using "1.IH"(3) [of type sz] True nottwo False
          by (simp add: type_def sz_def)
        moreover have "snd (meta_walk i offset s) = ?r"
          using True nottwo False
          by (simp add: meta_walk.simps [of i offset s] Let_def type_def sz_def)
        ultimately show ?thesis by simp
      qed
    qed
  qed
qed

lemma meta_walk_same_key: "same_key s (snd (meta_walk i offset s))"
proof -
  have "same_key s (s\<lparr>content_type := content_type (snd (meta_walk i offset s)),
          index_size := index_size (snd (meta_walk i offset s))\<rparr>)"
    by (simp add: same_key_def)
  then show ?thesis by (simp only: meta_walk_frame [symmetric])
qed


lemma head_index_states:
  "snd (head_index E s) = snd (grow_head E (ucast (enc_offset s)) s)
   \<or> snd (head_index E s) =
        snd (meta_walk 0 (meta_offset (snd (grow_head E (ucast (enc_offset s)) s)))
               ((snd (grow_head E (ucast (enc_offset s)) s))\<lparr>index_size := 0\<rparr>))
   \<or> (\<exists>target. snd (head_index E s) =
        snd (grow_head E target
          (snd (meta_walk 0 (meta_offset (snd (grow_head E (ucast (enc_offset s)) s)))
               ((snd (grow_head E (ucast (enc_offset s)) s))\<lparr>index_size := 0\<rparr>)))))"
proof -
  obtain q s1 where g: "grow_head E (ucast (enc_offset s)) s = (q, s1)"
    by (cases "grow_head E (ucast (enc_offset s)) s")
  obtain q2 s2 where m: "meta_walk 0 (meta_offset s1) (s1\<lparr>index_size := 0\<rparr>) = (q2, s2)"
    by (cases "meta_walk 0 (meta_offset s1) (s1\<lparr>index_size := 0\<rparr>)")
  have "snd (head_index E s) = s1 \<or> snd (head_index E s) = s2
        \<or> (\<exists>target. snd (head_index E s) = snd (grow_head E target s2))"
  proof (cases q)
    case (Inl e)
    then show ?thesis using g by (simp add: head_index_def)
  next
    case (Inr ran)
    show ?thesis
    proof (cases ran)
      case False
      then show ?thesis using g Inr by (simp add: head_index_def)
    next
      case True
      show ?thesis
      proof (cases q2)
        case (Inl e)
        then show ?thesis using g Inr True m by (simp add: head_index_def)
      next
        case walked: (Inr u)
        show ?thesis
        proof (cases "length (head s2) < unat (ucast (enc_offset s2 + ucast (index_count s2 * 32)) :: u32)")
          case True
          then show ?thesis
            using g Inr \<open>ran\<close> m walked by (simp add: head_index_def Let_def)
        next
          case False
          then have "snd (head_index E s) =
              snd (grow_head E (ucast (enc_offset s2 + ucast (index_count s2 * 32))) s2)"
            using g Inr \<open>ran\<close> m walked by (simp add: head_index_def Let_def)
          then show ?thesis by blast
        qed
      qed
    qed
  qed
  with g m show ?thesis by simp
qed

lemma head_index_same_key: "same_key s (snd (head_index E s))"
proof -
  let ?s1 = "snd (grow_head E (ucast (enc_offset s)) s)"
  let ?s2 = "snd (meta_walk 0 (meta_offset ?s1) (?s1\<lparr>index_size := 0\<rparr>))"
  have 1: "same_key s ?s1" by (rule grow_head_same_key)
  have "same_key (?s1\<lparr>index_size := 0\<rparr>) ?s2" by (rule meta_walk_same_key)
  then have "same_key ?s1 ?s2" by (simp add: same_key_def)
  with 1 have 2: "same_key s ?s2" by (rule same_key_trans)
  have 3: "same_key s (snd (grow_head E target ?s2))" for target
    by (rule same_key_trans [OF 2 grow_head_same_key])
  from head_index_states [of E s] 1 2 3 show ?thesis by auto
qed

lemma head_names_states:
  "snd (head_names E s) = s \<or> (\<exists>target. snd (head_names E s) = snd (grow_head E target s))"
proof -
  define item_offset where "item_offset = get64be (drop 8
     (aes128_ctr E (aes s) (iv s) 0 (take 32 (drop (unat (enc_offset s)) (head s)))))"
  define target :: u32 where "target = ucast (enc_offset s + item_offset)"
  have "snd (head_names E s) = s \<or> snd (head_names E s) = snd (grow_head E target s)"
    by (auto simp: head_names_def Let_def target_def item_offset_def
        split: sum.splits bool.splits prod.splits)
  then show ?thesis by blast
qed

lemma head_names_same_key: "same_key s (snd (head_names E s))"
  using head_names_states [of E s] grow_head_same_key [of s E] same_key_refl [of s] by auto

text \<open>
  What \<^verbatim>\<open>download_head\<close> does after the fixed header is in the buffer: the checks and the
  key, then the rest of the head.
\<close>

lemma download_head_after_header:
  assumes "create_file (s\<lparr>item_name := ''Preparing...'',
             item_path := snprintf256 (root s @ ''/sce_sys/package/head.bin'')\<rparr>) = (Inr 1, s1)"
    and "fill_header E 0 (s1\<lparr>head_size := 256\<rparr>) = (Inr True, s2)"
  shows "download_head E rif s =
     scope_exit (case parse_header E rif s2 of
        (Inl e, s3) \<Rightarrow> (Inl e, s3)
      | (Inr u, s3) \<Rightarrow>
          (case head_index E s3 of
             (Inl e, s4) \<Rightarrow> (Inl e, s4)
           | (Inr False, s4) \<Rightarrow> (Inr 0, s4)
           | (Inr True, s4) \<Rightarrow> head_names E s4))"
  using assms
  by (simp add: download_head_def download_head_body_def PKG_HEADER_SIZE_def
      PKG_HEADER_EXT_SIZE_def)


lemma download_head_same_key:
  assumes "create_file (s\<lparr>item_name := ''Preparing...'',
             item_path := snprintf256 (root s @ ''/sce_sys/package/head.bin'')\<rparr>) = (Inr 1, s1)"
    and "fill_header E 0 (s1\<lparr>head_size := 256\<rparr>) = (Inr True, s2)"
  shows "same_key (snd (parse_header E rif s2)) (snd (download_head E rif s))
       \<and> (\<forall>e. fst (parse_header E rif s2) = Inl e \<longrightarrow> fst (download_head E rif s) = Inl e)"
proof -
  obtain q3 s3 where p: "parse_header E rif s2 = (q3, s3)" by (cases "parse_header E rif s2")
  note unfold = download_head_after_header [OF assms, of rif]
  show ?thesis
  proof (cases q3)
    case (Inl e)
    with p unfold show ?thesis by (simp add: scope_exit_def same_key_def)
  next
    case (Inr u)
    obtain q4 s4 where h: "head_index E s3 = (q4, s4)" by (cases "head_index E s3")
    have 1: "same_key s3 s4" using head_index_same_key [of s3 E] h by simp
    have 2: "same_key s3 (snd (head_names E s4))"
      by (rule same_key_trans [OF 1 head_names_same_key])
    have "snd (download_head E rif s) = s4\<lparr>item_file := None\<rparr>
          \<or> snd (download_head E rif s) = (snd (head_names E s4))\<lparr>item_file := None\<rparr>"
      using p Inr h unfold by (auto simp: scope_exit_def split: sum.splits bool.splits)
    with 1 2 have "same_key s3 (snd (download_head E rif s))"
      by (auto simp: same_key_def)
    with p Inr show ?thesis by simp
  qed
qed

text \<open>
  C2. In \<^verbatim>\<open>download_head\<close>, once \<^verbatim>\<open>head.bin\<close> is created and the loop of lines 167 to 178
  has put the fixed header into the head buffer (these 256 bytes are the bytes the HTTP source
  served meanwhile), and the header passes its checks (both magics, the content id of the
  licence if there is one, the size of the head): the IV is the 16 bytes at 0x70, and the byte
  at 0xE7 masked with 7, one of 0 to 7, decides. 1 leaves \<open>pkg_psp_key\<close> as the key of the
  session; 2, 3 and 4 leave the block encryption of the IV under \<open>pkg_vita_2\<close>, \<open>pkg_vita_3\<close>
  and \<open>pkg_vita_4\<close>; with 0, 5, 6 and 7 \<^verbatim>\<open>download_head\<close> throws the error for an invalid key
  type, which carries the masked value.
\<close>

theorem download_head_key_ladder:
  assumes "create_file (s\<lparr>item_name := ''Preparing...'',
             item_path := snprintf256 (root s @ ''/sce_sys/package/head.bin'')\<rparr>) = (Inr 1, s1)"
    and "fill_header E 0 (s1\<lparr>head_size := 256\<rparr>) = (Inr True, s2)"
    and "get32be (head s2) = 0x7f504b47"
    and "get32be (drop PKG_HEADER_SIZE (head s2)) = 0x7F657874"
    and "rif = None \<or> (\<exists>r. rif = Some r \<and> pkgi_memequ (drop 0x10 r) (drop 0x30 (head s2)) 0x30)"
    and "unat (get64be (drop 32 (head s2))) \<le> length (head s2)"
  shows "length (take 256 (head s2)) = 256
       \<and> served (http s2) = served (http s) @ take 256 (head s2)
       \<and> iv (snd (download_head E rif s)) = take 16 (drop 0x70 (head s2))
       \<and> (head s2 ! 0xe7 AND 7 = 1 \<longrightarrow>
            aes (snd (download_head E rif s)) = pkg_psp_key)
       \<and> (head s2 ! 0xe7 AND 7 = 2 \<longrightarrow>
            aes (snd (download_head E rif s)) = E pkg_vita_2 (take 16 (drop 0x70 (head s2))))
       \<and> (head s2 ! 0xe7 AND 7 = 3 \<longrightarrow>
            aes (snd (download_head E rif s)) = E pkg_vita_3 (take 16 (drop 0x70 (head s2))))
       \<and> (head s2 ! 0xe7 AND 7 = 4 \<longrightarrow>
            aes (snd (download_head E rif s)) = E pkg_vita_4 (take 16 (drop 0x70 (head s2))))
       \<and> (head s2 ! 0xe7 AND 7 = 0 \<or> head s2 ! 0xe7 AND 7 = 5
          \<or> head s2 ! 0xe7 AND 7 = 6 \<or> head s2 ! 0xe7 AND 7 = 7 \<longrightarrow>
            fst (download_head E rif s) = Inl (InvalidKeyType (uint (head s2 ! 0xe7 AND 7))))
       \<and> (head s2 ! 0xe7 AND 7 = 0 \<or> head s2 ! 0xe7 AND 7 = 1 \<or> head s2 ! 0xe7 AND 7 = 2
          \<or> head s2 ! 0xe7 AND 7 = 3 \<or> head s2 ! 0xe7 AND 7 = 4 \<or> head s2 ! 0xe7 AND 7 = 5
          \<or> head s2 ! 0xe7 AND 7 = 6 \<or> head s2 ! 0xe7 AND 7 = 7)"
proof -
  let ?s0 = "s\<lparr>item_name := ''Preparing...'',
             item_path := snprintf256 (root s @ ''/sce_sys/package/head.bin'')\<rparr>"
  have "(0 :: u32) \<le> head_size (s1\<lparr>head_size := 256\<rparr>)" by simp
  from fill_header_result [OF assms(2) this] obtain bs where
    srv: "served (http s2) = served (http s1) @ bs" and len: "length bs = 256"
    and hd: "head s2 = bs @ drop 256 (head s1)"
    by auto
  have "view s1 = view ?s0" using create_file_view [of ?s0] assms(1) by simp
  then have "served (http s1) = served (http s)" by (simp add: view_def)
  with srv len hd have header: "length (take 256 (head s2)) = 256
       \<and> served (http s2) = served (http s) @ take 256 (head s2)"
    by simp
  note parsed = parse_header_key_ladder [OF assms(3-6), of E]
  note tied = download_head_same_key [OF assms(1,2), of rif]
  from tied have key: "aes (snd (download_head E rif s)) = aes (snd (parse_header E rif s2))"
    and vec: "iv (snd (download_head E rif s)) = iv (snd (parse_header E rif s2))"
    and err: "\<And>e. fst (parse_header E rif s2) = Inl e \<Longrightarrow> fst (download_head E rif s) = Inl e"
    by (simp_all add: same_key_def)
  from parsed have bad: "head s2 ! 0xe7 AND 7 = 0 \<or> head s2 ! 0xe7 AND 7 = 5
          \<or> head s2 ! 0xe7 AND 7 = 6 \<or> head s2 ! 0xe7 AND 7 = 7 \<Longrightarrow>
            fst (download_head E rif s) = Inl (InvalidKeyType (uint (head s2 ! 0xe7 AND 7)))"
    using err by blast
  show ?thesis
    using header parsed bad by (simp add: key vec)
qed

text \<open>
  A session about to read the head of the package without files, with the key type \<open>key_type\<close>
  in its header: nothing requested yet, a head buffer of 320 bytes.
\<close>

definition fresh :: "u8 \<Rightarrow> download" where
  "fresh key_type = blank\<lparr>root := ''ux0:pkgj/C'', head := replicate 320 0,
      http := bare_server\<lparr>resource := keyed_pkg key_type\<rparr>\<rparr>"

lemmas fresh_defs = fresh_def blank_def bare_server_def keyed_pkg_def empty_disk_def

lemma fresh_created:
  "fst (create_file ((fresh k)\<lparr>item_name := ''Preparing...'',
          item_path := snprintf256 (root (fresh k) @ ''/sce_sys/package/head.bin'')\<rparr>)) = Inr 1"
  by (simp add: pipeline_defs fresh_defs cong: run_cong)

lemma fresh_filled:
  "fst (fill_header E 0 ((snd (create_file ((fresh k)\<lparr>item_name := ''Preparing...'',
          item_path := snprintf256 (root (fresh k) @ ''/sce_sys/package/head.bin'')\<rparr>)))\<lparr>head_size := 256\<rparr>)) = Inr True"
  by (simp add: pipeline_defs fresh_defs cong: run_cong)

lemma fresh_head:
  "head (snd (fill_header E 0 ((snd (create_file ((fresh k)\<lparr>item_name := ''Preparing...'',
          item_path := snprintf256 (root (fresh k) @ ''/sce_sys/package/head.bin'')\<rparr>)))\<lparr>head_size := 256\<rparr>)))
    = take 256 (keyed_pkg k) @ replicate 64 0"
  by (simp add: pipeline_defs fresh_defs cong: run_cong)


lemma fresh_run:
  "fst (download_head null_cipher None (fresh 2)) = Inr 1"
  by (simp add: pipeline_defs fresh_defs cong: run_cong)

lemma fresh_served:
  "served (http (snd (download_head null_cipher None (fresh 2)))) = take 288 (keyed_pkg 2)"
  by (simp add: pipeline_defs fresh_defs cong: run_cong)

theorem download_head_key_ladder_witness:
  "fst (download_head null_cipher None (fresh 2)) = Inr 1
   \<and> served (http (snd (download_head null_cipher None (fresh 2)))) = take 288 (keyed_pkg 2)
   \<and> aes (snd (download_head null_cipher None (fresh 2))) = replicate 16 0
   \<and> iv (snd (download_head xor_cipher None (fresh 2))) = replicate 16 0
   \<and> aes (snd (download_head xor_cipher None (fresh 2))) = pkg_vita_2
   \<and> aes (snd (download_head xor_cipher None (fresh 1))) = pkg_psp_key
   \<and> fst (download_head xor_cipher None (fresh 5)) = Inl (InvalidKeyType 5)"
proof -
  have keys: "xor_cipher pkg_vita_2 (replicate 16 0) = pkg_vita_2"
    by (simp add: xor_cipher_def pkg_vita_2_def replicate_numeral_unfold)
  have facts: "iv (snd (download_head E None (fresh k)))
                 = take 16 (drop 0x70 (take 256 (keyed_pkg k) @ replicate 64 0))
       \<and> ((take 256 (keyed_pkg k) @ replicate 64 0) ! 0xe7 AND 7 = 1 \<longrightarrow>
            aes (snd (download_head E None (fresh k))) = pkg_psp_key)
       \<and> ((take 256 (keyed_pkg k) @ replicate 64 0) ! 0xe7 AND 7 = 2 \<longrightarrow>
            aes (snd (download_head E None (fresh k)))
              = E pkg_vita_2 (take 16 (drop 0x70 (take 256 (keyed_pkg k) @ replicate 64 0))))
       \<and> ((take 256 (keyed_pkg k) @ replicate 64 0) ! 0xe7 AND 7 = 5 \<longrightarrow>
            fst (download_head E None (fresh k))
              = Inl (InvalidKeyType (uint ((take 256 (keyed_pkg k) @ replicate 64 0) ! 0xe7 AND 7))))"
    for E k
  proof -
    let ?s0 = "(fresh k)\<lparr>item_name := ''Preparing...'',
          item_path := snprintf256 (root (fresh k) @ ''/sce_sys/package/head.bin'')\<rparr>"
    let ?s1 = "snd (create_file ?s0)"
    let ?s2 = "snd (fill_header E 0 (?s1\<lparr>head_size := 256\<rparr>))"
    have c: "create_file ?s0 = (Inr 1, ?s1)"
      by (rule prod_eqI) (simp_all add: fresh_created)
    have f: "fill_header E 0 (?s1\<lparr>head_size := 256\<rparr>) = (Inr True, ?s2)"
      by (rule prod_eqI) (simp_all add: fresh_filled)
    have h: "head ?s2 = take 256 (keyed_pkg k) @ replicate 64 0"
      by (rule fresh_head)
    have m1: "get32be (head ?s2) = 0x7f504b47"
      unfolding h by (simp add: keyed_pkg_def get32be_def be_word_def)
    have m2: "get32be (drop PKG_HEADER_SIZE (head ?s2)) = 0x7F657874"
      unfolding h by (simp add: keyed_pkg_def get32be_def be_word_def PKG_HEADER_SIZE_def
          replicate_numeral_unfold)
    have l: "None = None \<or> (\<exists>r. None = Some r
               \<and> pkgi_memequ (drop 0x10 r) (drop 0x30 (head ?s2)) 0x30)"
      by simp
    have b: "unat (get64be (drop 32 (head ?s2))) \<le> length (head ?s2)"
      unfolding h by (simp add: keyed_pkg_def get64be_def be_word_def replicate_numeral_unfold)
    from download_head_key_ladder [OF c f m1 m2 l b] show ?thesis
      unfolding h by simp
  qed
  have i: "take 16 (drop 0x70 (take 256 (keyed_pkg k) @ replicate 64 0)) = replicate 16 0" for k
    by (simp add: keyed_pkg_def replicate_numeral_unfold)
  have b: "(take 256 (keyed_pkg k) @ replicate 64 0) ! 0xe7 = k" for k
    by (simp add: keyed_pkg_def replicate_numeral_unfold)
  note ladder = facts [unfolded i b]
  from ladder [of null_cipher 2] ladder [of xor_cipher 2] ladder [of xor_cipher 1]
    ladder [of xor_cipher 5] fresh_run fresh_served show ?thesis
    by (simp add: keys null_cipher_def)
qed

section \<open>Where a session opens the stream\<close>

text \<open>
  What a stretch of the pipeline does to the log of requests: a stream that is open stays
  open and nothing is requested; a stream that is closed either stays closed, and then
  nothing is requested, nothing is served and \<open>download_offset\<close> stays, or it is opened by
  one request, for \<open>download_url\<close> at the \<open>download_offset\<close> of that moment.
\<close>

definition opened_at :: "download \<Rightarrow> download \<Rightarrow> bool" where
  "opened_at s s' \<longleftrightarrow>
     download_url s' = download_url s
     \<and> (if started (http s) then started (http s') \<and> requests (http s') = requests (http s)
        else if started (http s')
        then requests (http s') = requests (http s) @ [(download_url s, download_offset s)]
        else requests (http s') = requests (http s) \<and> download_offset s' = download_offset s
             \<and> served (http s') = served (http s))"

lemma opened_at_refl: "opened_at s s"
  by (simp add: opened_at_def)

lemma opened_at_trans: "opened_at a b \<Longrightarrow> opened_at b c \<Longrightarrow> opened_at a c"
  by (auto simp: opened_at_def split: if_splits)

lemma http_read_requests:
  "http_read sz h = (rd, bytes, h') \<Longrightarrow> started h' = started h \<and> requests h' = requests h"
  by (auto simp: http_read_def http_deliver_def Let_def split: list.splits http_event.splits)

lemma process_read_frame:
  assumes "process_read E enc save rd bytes s = (r, s1)"
  shows "http s1 = http s \<and> download_url s1 = download_url s"
proof (cases "rd \<le> 0")
  case True
  with assms have "s1 = s" by (auto simp: process_read_def split: if_splits)
  then show ?thesis by simp
next
  case False
  define s2 where "s2 = s\<lparr>download_offset := download_offset s + of_int rd,
                          sha := sha256_update (sha s) bytes\<rparr>"
  obtain buf s3 where d: "decrypt_step E enc rd bytes s2 = (buf, s3)"
    by (cases "decrypt_step E enc rd bytes s2")
  have "s1 = s3 \<or> (\<exists>r'. save_step enc rd buf s3 = (r', s1))"
    using assms False d
    by (auto simp: process_read_def Let_def s2_def split: if_splits prod.splits sum.splits)
  then have "http s1 = http s3 \<and> download_url s1 = download_url s3"
    using save_step_frame by blast
  with decrypt_step_frame [OF d] show ?thesis by (simp add: s2_def)
qed

lemma download_data_opened:
  assumes "download_data E room sz enc save s = (r, s')"
  shows "opened_at s s'"
proof -
  from download_data_stages [OF assms] obtain c0 sa where
    a: "is_canceled s = (c0, sa)" and
    b: "s' = sa \<or> (\<exists>u sb. open_stream sa = (u, sb) \<and>
               (s' = sb \<or>
                (\<exists>rd bytes h. http_read sz (http sb) = (rd, bytes, h)
                   \<and> process_read E enc save rd bytes (sb\<lparr>http := h\<rparr>) = (r, s'))))"
    by blast
  have 1: "opened_at s sa"
    using a by (auto simp: is_canceled_def opened_at_def split: list.splits)
  from b have "opened_at sa s'"
  proof
    assume "s' = sa"
    then show ?thesis by (simp add: opened_at_refl)
  next
    assume "\<exists>u sb. open_stream sa = (u, sb) \<and>
               (s' = sb \<or>
                (\<exists>rd bytes h. http_read sz (http sb) = (rd, bytes, h)
                   \<and> process_read E enc save rd bytes (sb\<lparr>http := h\<rparr>) = (r, s')))"
    then obtain u sb where o: "open_stream sa = (u, sb)" and
      c: "s' = sb \<or> (\<exists>rd bytes h. http_read sz (http sb) = (rd, bytes, h)
                   \<and> process_read E enc save rd bytes (sb\<lparr>http := h\<rparr>) = (r, s'))"
      by blast
    have 2: "opened_at sa sb" and st: "started (http sb)"
      using o by (auto simp: open_stream_def opened_at_def http_start_def Let_def split: if_splits)
    from c have "opened_at sb s'"
    proof
      assume "s' = sb"
      then show ?thesis by (simp add: opened_at_refl)
    next
      assume "\<exists>rd bytes h. http_read sz (http sb) = (rd, bytes, h)
                   \<and> process_read E enc save rd bytes (sb\<lparr>http := h\<rparr>) = (r, s')"
      then obtain rd bytes h where rd: "http_read sz (http sb) = (rd, bytes, h)"
        and p: "process_read E enc save rd bytes (sb\<lparr>http := h\<rparr>) = (r, s')"
        by blast
      from process_read_frame [OF p] http_read_requests [OF rd] st
      show ?thesis by (simp add: opened_at_def)
    qed
    with 2 show ?thesis by (rule opened_at_trans)
  qed
  with 1 show ?thesis by (rule opened_at_trans)
qed

lemma opened_at_stream: "stream_relation opened_at"
  unfolding stream_relation_def
proof (intro conjI allI impI)
  fix a b c
  assume "opened_at a b" and "opened_at b c"
  then show "opened_at a c" by (rule opened_at_trans)
next
  fix s s'
  assume "view s' = view s"
  then show "opened_at s s'" by (simp add: view_def opened_at_def)
next
  fix E room sz enc save s
  show "opened_at s (snd (download_data E room sz enc save s))"
    by (rule download_data_opened [of E room sz enc save s
          "fst (download_data E room sz enc save s)"]) simp
qed


lemma download_head_from_header:
  assumes R: "stream_relation R"
    and c: "create_file (s\<lparr>item_name := ''Preparing...'',
             item_path := snprintf256 (root s @ ''/sce_sys/package/head.bin'')\<rparr>) = (Inr 1, s1)"
    and f: "fill_header E 0 (s1\<lparr>head_size := 256\<rparr>) = (Inr True, s2)"
  shows "R s2 (snd (download_head E rif s))"
proof -
  obtain q3 s3 where p: "parse_header E rif s2 = (q3, s3)" by (cases "parse_header E rif s2")
  have "view s3 = view s2" using parse_header_view [of E rif s2] p by simp
  then have 3: "R s2 s3" by (rule stream_local [OF R])
  obtain q4 s4 where h: "head_index E s3 = (q4, s4)" by (cases "head_index E s3")
  have "R s3 s4" using head_index_stream [OF R, of s3 E] h by simp
  with 3 have 4: "R s2 s4" by (rule stream_trans [OF R])
  have 5: "R s2 (snd (head_names E s4))"
    by (rule stream_trans [OF R 4 head_names_stream [OF R]])
  note unfold = download_head_after_header [OF c f, of rif]
  have "snd (download_head E rif s) = s3\<lparr>item_file := None\<rparr>
        \<or> snd (download_head E rif s) = s4\<lparr>item_file := None\<rparr>
        \<or> snd (download_head E rif s) = (snd (head_names E s4))\<lparr>item_file := None\<rparr>"
    using p h unfold by (auto simp: scope_exit_def split: sum.splits bool.splits)
  moreover have "R s2 (x\<lparr>item_file := None\<rparr>)" if "R s2 x" for x
    using that by (rule stream_then_local [OF R]) (simp add: view_def)
  ultimately show ?thesis using 3 4 5 by auto
qed

lemma download_head_done:
  assumes "download_head E rif s = (Inr r, s')" and "r \<noteq> 0"
  shows "\<exists>s1 s2. create_file (s\<lparr>item_name := ''Preparing...'',
             item_path := snprintf256 (root s @ ''/sce_sys/package/head.bin'')\<rparr>) = (Inr 1, s1)
           \<and> fill_header E 0 (s1\<lparr>head_size := 256\<rparr>) = (Inr True, s2)"
proof -
  let ?s0 = "s\<lparr>item_name := ''Preparing...'',
             item_path := snprintf256 (root s @ ''/sce_sys/package/head.bin'')\<rparr>"
  obtain q1 s1 where c: "create_file ?s0 = (q1, s1)" by (cases "create_file ?s0")
  obtain q2 s2 where f: "fill_header E 0 (s1\<lparr>head_size := 256\<rparr>) = (q2, s2)"
    by (cases "fill_header E 0 (s1\<lparr>head_size := 256\<rparr>)")
  have "q1 = Inr 1"
    using c assms
    by (auto simp: create_file_def download_head_def download_head_body_def scope_exit_def
        split: option.splits prod.splits bool.splits sum.splits)
  moreover have "q2 = Inr True"
    using c f assms \<open>q1 = Inr 1\<close>
    by (cases q2)
       (auto simp: download_head_def download_head_body_def scope_exit_def
          PKG_HEADER_SIZE_def PKG_HEADER_EXT_SIZE_def split: bool.splits)
  ultimately show ?thesis using c f by simp
qed

lemma run_phases_done:
  assumes "fst (run_phases E H rif digest s) = Inr r" and "r \<noteq> 0"
  shows "\<exists>r1 s1. download_head E rif s = (Inr r1, s1) \<and> r1 \<noteq> 0"
proof -
  obtain q1 s1 where h: "download_head E rif s = (q1, s1)" by (cases "download_head E rif s")
  show ?thesis
  proof (cases q1)
    case (Inl e)
    with h assms show ?thesis by (simp add: run_phases_def)
  next
    case (Inr r1)
    with h assms show ?thesis by (cases "r1 = 0") (simp_all add: run_phases_def)
  qed
qed


lemma fill_header_opens:
  assumes f: "fill_header E 0 (s1\<lparr>head_size := 256\<rparr>) = (Inr True, s2)"
  shows "started (http s2)"
proof (rule ccontr)
  assume n: "\<not> started (http s2)"
  have "(0 :: u32) \<le> head_size (s1\<lparr>head_size := 256\<rparr>)" by simp
  from fill_header_result [OF f this] obtain bs where
    srv: "served (http s2) = served (http s1) @ bs" and len: "length bs = 256"
    by auto
  have "opened_at (s1\<lparr>head_size := 256\<rparr>) s2"
    using fill_header_stream [OF opened_at_stream, of "s1\<lparr>head_size := 256\<rparr>" E 0] f by simp
  with n have "served (http s2) = served (http s1)"
    by (auto simp: opened_at_def split: if_splits)
  with srv len show False by simp
qed

lemma opened_at_stays: "opened_at s s' \<Longrightarrow> started (http s) \<Longrightarrow> started (http s')"
  by (simp add: opened_at_def)

lemma run_phases_opens:
  assumes "fst (run_phases E H rif digest s) = Inr r" and "r \<noteq> 0"
  shows "started (http (snd (run_phases E H rif digest s)))"
proof -
  from run_phases_done [OF assms] obtain r1 s1 where
    h: "download_head E rif s = (Inr r1, s1)" and "r1 \<noteq> 0"
    by blast
  from download_head_done [OF this] obtain sa sb where
    c: "create_file (s\<lparr>item_name := ''Preparing...'',
             item_path := snprintf256 (root s @ ''/sce_sys/package/head.bin'')\<rparr>) = (Inr 1, sa)"
    and f: "fill_header E 0 (sa\<lparr>head_size := 256\<rparr>) = (Inr True, sb)"
    by blast
  have "started (http sb)" using f by (rule fill_header_opens)
  moreover have "opened_at sb s1"
    using download_head_from_header [OF opened_at_stream c f, of rif] h by simp
  ultimately have "started (http s1)" by (rule opened_at_stays [rotated])
  moreover have "opened_at s1 (snd (run_phases E H rif digest s))"
    by (rule run_phases_after_head [OF opened_at_stream h])
  ultimately show ?thesis by (rule opened_at_stays [rotated])
qed

text \<open>
  C6, as the code has it. \<^verbatim>\<open>download_data\<close> opens a closed stream at the \<open>download_offset\<close>
  of the moment of the call. \<^verbatim>\<open>pkgi_download\<close> sets \<open>download_offset\<close> to 0 before its first
  phase (line 609), whatever the member held: a session that starts with the stream closed
  makes at most one request, for the URL it was given at byte 0; without that request no
  byte is served; and a run that returns 1 has made it.
\<close>

theorem session_opens_at_zero:
  "(\<forall>n buf s'. \<not> started (http s) \<longrightarrow>
        download_data E room sz encrypted save s = (Inr (n, buf), s') \<longrightarrow> 0 < n \<longrightarrow>
        requests (http s') = requests (http s) @ [(download_url s, download_offset s)])
   \<and> (\<not> started (http s) \<longrightarrow>
        requests (http (snd (pkgi_download E H content url rif digest s)))
          = requests (http s) @ [(url, 0)]
        \<or> requests (http (snd (pkgi_download E H content url rif digest s))) = requests (http s)
          \<and> served (http (snd (pkgi_download E H content url rif digest s))) = served (http s))
   \<and> (\<not> started (http s) \<longrightarrow> fst (pkgi_download E H content url rif digest s) = Inr 1 \<longrightarrow>
        requests (http (snd (pkgi_download E H content url rif digest s)))
          = requests (http s) @ [(url, 0)])"
proof (intro conjI allI impI)
  fix n buf s'
  assume n: "\<not> started (http s)"
    and d: "download_data E room sz encrypted save s = (Inr (n, buf), s')" and pos: "0 < n"
  from download_data_returns [OF d pos] obtain bytes where
    "length bytes = nat n" and "served (http s') = served (http s) @ bytes"
    by blast
  with pos have "served (http s') \<noteq> served (http s)" by auto
  with download_data_opened [OF d] n
  show "requests (http s') = requests (http s) @ [(download_url s, download_offset s)]"
    by (auto simp: opened_at_def split: if_splits)
next
  assume n: "\<not> started (http s)"
  have "opened_at (session_start content url s)
          (snd (pkgi_download E H content url rif digest s))"
    by (rule pkgi_download_stream [OF opened_at_stream])
  with n show "requests (http (snd (pkgi_download E H content url rif digest s)))
          = requests (http s) @ [(url, 0)]
        \<or> requests (http (snd (pkgi_download E H content url rif digest s))) = requests (http s)
          \<and> served (http (snd (pkgi_download E H content url rif digest s))) = served (http s)"
    by (auto simp: opened_at_def session_start_def split: if_splits)
next
  assume n: "\<not> started (http s)"
    and ok: "fst (pkgi_download E H content url rif digest s) = Inr 1"
  have "opened_at (session_start content url s)
          (snd (pkgi_download E H content url rif digest s))"
    by (rule pkgi_download_stream [OF opened_at_stream])
  moreover have "started (http (snd (pkgi_download E H content url rif digest s)))"
    using run_phases_opens [of E H rif digest "session_start content url s" 1] ok
    by (simp add: pkgi_download_phases)
  ultimately show "requests (http (snd (pkgi_download E H content url rif digest s)))
          = requests (http s) @ [(url, 0)]"
    using n by (auto simp: opened_at_def session_start_def split: if_splits)
qed

text \<open>
  A session on the package without files whose \<open>download_offset\<close> is 40 when
  \<^verbatim>\<open>pkgi_download\<close> is called, as after a partial download.
\<close>

lemma resumed_run:
  "fst (pkgi_download null_cipher sum_hash ''C'' ''u'' None None resumed) = Inr 1"
  by (simp add: pipeline_defs resumed_def blank_def bare_server_def bare_pkg_def keyed_pkg_def
      empty_disk_def cong: run_cong)

lemma resumed_requests:
  "requests (http (snd (pkgi_download null_cipher sum_hash ''C'' ''u'' None None resumed)))
     = [(''u'', 0)]"
  by (simp add: pipeline_defs resumed_def blank_def bare_server_def bare_pkg_def keyed_pkg_def
      empty_disk_def cong: run_cong)

text \<open>
  The run requests the package at byte 0, not at byte 40, and goes through: the claim that a
  session begins at the offset that was persisted fails.
\<close>

theorem resumed_session_starts_at_zero:
  "download_offset resumed = 40
   \<and> started (http resumed) = False
   \<and> fst (pkgi_download null_cipher sum_hash ''C'' ''u'' None None resumed) = Inr 1
   \<and> requests (http (snd (pkgi_download null_cipher sum_hash ''C'' ''u'' None None resumed)))
       = [(''u'', 0)]
   \<and> requests (http (snd (pkgi_download null_cipher sum_hash ''C'' ''u'' None None resumed)))
       \<noteq> [(''u'', download_offset resumed)]"
  using resumed_run resumed_requests
  by (simp add: resumed_def blank_def bare_server_def)

theorem session_opens_at_zero_witness:
  "requests (http (snd (download_data null_cipher 5 5 1 0 (tiny\<lparr>download_offset := 3\<rparr>))))
     = [([], 3)]
   \<and> fst (download_data null_cipher 5 5 1 0 (tiny\<lparr>download_offset := 3\<rparr>)) = Inr (5, [4, 5, 6, 7, 8])
   \<and> fst (pkgi_download null_cipher sum_hash ''C'' ''u'' None None resumed) = Inr 1
   \<and> requests (http (snd (pkgi_download null_cipher sum_hash ''C'' ''u'' None None resumed)))
       = [(''u'', 0)]"
proof -
  let ?t = "tiny\<lparr>download_offset := 3\<rparr>"
  have r: "fst (download_data null_cipher 5 5 1 0 ?t) = Inr (5, [4, 5, 6, 7, 8])"
    by (simp add: read_defs tiny_def tiny_server_def blank_def cong: run_cong)
  have run: "download_data null_cipher 5 5 1 0 ?t =
               (Inr (5, [4, 5, 6, 7, 8]), snd (download_data null_cipher 5 5 1 0 ?t))"
    by (rule prod_eqI) (simp_all add: r)
  have closed: "\<not> started (http ?t)" "requests (http ?t) = []"
    "download_url ?t = []" "download_offset ?t = 3"
    by (simp_all add: tiny_def tiny_server_def blank_def)
  have closed': "\<not> started (http resumed)" "requests (http resumed) = []"
    by (simp_all add: resumed_def blank_def bare_server_def)
  note opens = session_opens_at_zero
  from opens [where s = ?t and E = null_cipher and room = 5 and sz = 5 and encrypted = 1
        and save = 0, THEN conjunct1, rule_format, OF closed(1) run]
  have 1: "requests (http (snd (download_data null_cipher 5 5 1 0 ?t))) = [([], 3)]"
    using closed by simp
  from opens [where s = resumed and E = null_cipher and H = sum_hash and content = "''C''"
        and url = "''u''" and rif = None and digest = None,
      THEN conjunct2, THEN conjunct2, rule_format, OF closed'(1) resumed_run]
  have 2: "requests (http (snd (pkgi_download null_cipher sum_hash ''C'' ''u'' None None resumed)))
       = [(''u'', 0)]"
    by (simp add: closed')
  from 1 2 r resumed_run show ?thesis by simp
qed

end
